theory Spec2Isabelle
  imports Main "HOL-Library.Word"
begin

unbundle bit_operations_syntax

section \<open>Common data model (common.h)\<close>

text \<open>
  The C++ sources work on bytes (\<open>unsigned char\<close>), 32- and 64-bit integers and
  IEEE-754 doubles. A double is modelled by its 64-bit pattern: the binary codec copies
  the eight bytes of a double unchanged, and \<open>std::isnan\<close> and the comparison with zero
  are functions of the pattern alone.
\<close>

type_synonym byte = "8 word"
type_synonym int32 = "32 word"
type_synonym int64 = "64 word"
type_synonym double = "64 word"

text \<open>
  How a call of the C++ code can end without a value:
  \<^item> \<open>Stop msg\<close>: \<open>Rcpp::stop(msg)\<close>, the fatal error of the package;
  \<^item> \<open>Thrown\<close>: an exception of the C++ standard library (a vector of negative size,
    \<open>std::stod\<close> on a text that is no number, \<open>std::get\<close> on the other alternative of
    a variant);
  \<^item> \<open>Indeterminate\<close>: the code reads a buffer that no read has filled, or indexes a
    vector outside its bounds; C++ defines no result there and the model follows it
    no further.
\<close>

datatype err = Stop string | Thrown | Indeterminate

definition isnan :: "double \<Rightarrow> bool" where
  "isnan d = (d AND 0x7FF0000000000000 = 0x7FF0000000000000 \<and> d AND 0x000FFFFFFFFFFFFF \<noteq> 0)"

text \<open>\<open>std::nan("")\<close>: the quiet NaN.\<close>

definition nan :: double where
  "nan = 0x7FF8000000000000"

text \<open>\<open>d > 0\<close> on doubles: sign bit clear, not zero, not NaN.\<close>

definition positive :: "double \<Rightarrow> bool" where
  "positive d = (d AND 0x8000000000000000 = 0 \<and> d \<noteq> 0 \<and> \<not> isnan d)"

section \<open>Binary primitives: writing (write\_binary\_tree.cpp)\<close>

text \<open>
  The output file is opened empty and only appended to: it is the list of the bytes
  written so far, and \<open>tellp\<close> is its length.
\<close>

definition writeByte :: "byte list \<Rightarrow> byte \<Rightarrow> byte list" where
  "writeByte stream b = stream @ [b]"

definition writeBytes :: "byte list \<Rightarrow> byte list \<Rightarrow> byte list" where
  "writeBytes stream bytes = stream @ bytes"

definition writeInt32 :: "byte list \<Rightarrow> int32 \<Rightarrow> byte list" where
  "writeInt32 stream val =
     writeBytes stream
       [ucast (val AND 0x000000ff),
        ucast (drop_bit 8 (val AND 0x0000ff00)),
        ucast (drop_bit 16 (val AND 0x00ff0000)),
        ucast (drop_bit 24 (val AND 0xff000000))]"

definition writeInt64 :: "byte list \<Rightarrow> int64 \<Rightarrow> byte list" where
  "writeInt64 stream val =
     writeBytes stream
       [ucast (val AND 0x00000000000000ff),
        ucast (drop_bit 8 (val AND 0x000000000000ff00)),
        ucast (drop_bit 16 (val AND 0x0000000000ff0000)),
        ucast (drop_bit 24 (val AND 0x00000000ff000000)),
        ucast (drop_bit 32 (val AND 0x000000ff00000000)),
        ucast (drop_bit 40 (val AND 0x0000ff0000000000)),
        ucast (drop_bit 48 (val AND 0x00ff000000000000)),
        ucast (drop_bit 56 (val AND 0xff00000000000000))]"

text \<open>The eight bytes of a double in the layout of the platform (little-endian).\<close>

definition writeDouble :: "byte list \<Rightarrow> double \<Rightarrow> byte list" where
  "writeDouble stream val =
     writeBytes stream (map (\<lambda>i. ucast (drop_bit (8 * i) val)) [0..<8])"

text \<open>\<open>val < 254\<close> compares signed 32-bit integers.\<close>

definition writeInt :: "byte list \<Rightarrow> int32 \<Rightarrow> byte list" where
  "writeInt stream val =
     (if sint val < 254 then writeByte stream (ucast val)
      else writeInt32 (writeByte stream 254) val)"

text \<open>
  A \<open>std::string\<close> is a list of bytes; \<open>(int32_t)val[i]\<close> sign-extends a \<open>char\<close>
  (\<open>char\<close> is signed on the platforms the package is built for).
\<close>

definition writeMyString :: "byte list \<Rightarrow> byte list \<Rightarrow> byte list" where
  "writeMyString stream val =
     foldl (\<lambda>st c. writeInt st (scast c)) (writeInt stream (word_of_nat (length val))) val"

text \<open>
  \<open>writeShortInt\<close> returns the new bit cursor; the byte under construction is passed
  by pointer and returned here beside the stream.
\<close>

definition writeShortInt ::
  "byte list \<Rightarrow> int32 \<Rightarrow> byte \<Rightarrow> nat \<Rightarrow> err + (byte list \<times> byte \<times> nat)" where
  "writeShortInt stream val currByte currIndex =
    (if val = 0 then
       (if currIndex = 0 then Inr (stream, currByte, 2)
        else if currIndex = 2 then Inr (stream, currByte, 4)
        else if currIndex = 4 then Inr (stream, currByte, 6)
        else if currIndex = 6 then Inr (writeByte stream currByte, 0, 0)
        else Inl (Stop ''Unexpected code path!''))
     else if val = 2 then
       (if currIndex = 0 then Inr (stream, currByte OR 0b00000001, 2)
        else if currIndex = 2 then Inr (stream, currByte OR 0b00000100, 4)
        else if currIndex = 4 then Inr (stream, currByte OR 0b00010000, 6)
        else if currIndex = 6 then Inr (writeByte stream (currByte OR 0b01000000), 0, 0)
        else Inl (Stop ''Unexpected code path!''))
     else if val = 3 then
       (if currIndex = 0 then Inr (stream, currByte OR 0b00000010, 2)
        else if currIndex = 2 then Inr (stream, currByte OR 0b00001000, 4)
        else if currIndex = 4 then Inr (stream, currByte OR 0b00100000, 6)
        else if currIndex = 6 then Inr (writeByte stream (currByte OR 0b10000000), 0, 0)
        else Inl (Stop ''Unexpected code path!''))
     else if val = 1 then
       (if currIndex = 0 then Inr (stream, currByte OR 0b00000011, 4)
        else if currIndex = 2 then Inr (stream, currByte OR 0b00001100, 6)
        else if currIndex = 4 then Inr (writeByte stream (currByte OR 0b00110000), 0, 0)
        else if currIndex = 6 then Inr (writeByte stream (currByte OR 0b11000000), 0, 2)
        else Inl (Stop ''Unexpected code path!''))
     else if val = 4 then
       (if currIndex = 0 then Inr (stream, currByte OR 0b00000111, 4)
        else if currIndex = 2 then Inr (stream, currByte OR 0b00011100, 6)
        else if currIndex = 4 then Inr (writeByte stream (currByte OR 0b01110000), 0, 0)
        else if currIndex = 6 then Inr (writeByte stream (currByte OR 0b11000000), 0b00000001, 2)
        else Inl (Stop ''Unexpected code path!''))
     else if val = 5 then
       (if currIndex = 0 then Inr (stream, currByte OR 0b00001011, 4)
        else if currIndex = 2 then Inr (stream, currByte OR 0b00101100, 6)
        else if currIndex = 4 then Inr (writeByte stream (currByte OR 0b10110000), 0, 0)
        else if currIndex = 6 then Inr (writeByte stream (currByte OR 0b11000000), 0b00000010, 2)
        else Inl (Stop ''Unexpected code path!''))
     else
       (if currIndex = 0 then
          Inr (writeInt (writeByte stream (currByte OR 0b00001111)) val, 0, 0)
        else if currIndex = 2 then
          Inr (writeInt (writeByte stream (currByte OR 0b00111100)) val, 0, 0)
        else if currIndex = 4 then
          Inr (writeInt (writeByte stream (currByte OR 0b11110000)) val, 0, 0)
        else if currIndex = 6 then
          Inr (writeInt (writeByte (writeByte stream (currByte OR 0b11000000)) 0b00000011) val, 0, 0)
        else Inl (Stop ''Unexpected code path!'')))"

text \<open>
  The loop of \<open>writeBinaryTree\<close> over the child counts (lines 362 to 368), and the flush
  of the last byte when the cursor is not 0 (lines 370 to 373).
\<close>

fun writeShortInts ::
  "byte list \<Rightarrow> int32 list \<Rightarrow> byte \<Rightarrow> nat \<Rightarrow> err + (byte list \<times> byte \<times> nat)" where
  "writeShortInts stream [] currByte currPos = Inr (stream, currByte, currPos)"
| "writeShortInts stream (v # vs) currByte currPos =
     (case writeShortInt stream v currByte currPos of
        Inl e \<Rightarrow> Inl e
      | Inr (stream', currByte', currPos') \<Rightarrow> writeShortInts stream' vs currByte' currPos')"

definition writeChildCounts :: "byte list \<Rightarrow> int32 list \<Rightarrow> err + byte list" where
  "writeChildCounts stream counts =
     (case writeShortInts stream counts 0 0 of
        Inl e \<Rightarrow> Inl e
      | Inr (stream', currByte, currPos) \<Rightarrow>
          Inr (if currPos \<noteq> 0 then writeByte stream' currByte else stream'))"

section \<open>Binary primitives: reading (read\_binary\_tree.cpp)\<close>

text \<open>
  An input \<open>std::fstream\<close>: the bytes of the file, the get position and the two state
  bits the code depends on. A read on a stream that is not good reads nothing and sets
  \<open>failbit\<close>; a read that meets the end of the file sets \<open>eofbit\<close> and \<open>failbit\<close>.
\<close>

record 'a istream =
  content :: "'a list"
  gpos :: nat
  eofbit :: bool
  failbit :: bool

definition openFile :: "'a list \<Rightarrow> 'a istream" where
  "openFile bs = \<lparr>content = bs, gpos = 0, eofbit = False, failbit = False\<rparr>"

text \<open>
  \<open>readByte\<close> and \<open>readDouble\<close> read into a local array that is not initialised, and
  the stream throws no exception: when the read fails (the stream is not good, or the
  file has no byte left) the function returns what the array happened to hold. That
  value is the parameter \<open>junk\<close>; no property proved below depends on it.
\<close>

definition readByte :: "byte \<Rightarrow> byte istream \<Rightarrow> byte \<times> byte istream" where
  "readByte junk s =
     (if eofbit s \<or> failbit s then (junk, s\<lparr>failbit := True\<rparr>)
      else if gpos s < length (content s) then (content s ! gpos s, s\<lparr>gpos := gpos s + 1\<rparr>)
      else (junk, s\<lparr>eofbit := True, failbit := True\<rparr>))"

text \<open>
  \<open>readBytes\<close> reads into a \<open>std::vector<byte>(count)\<close>, which starts as zeros: the
  bytes the file does not have stay 0.
\<close>

definition readBytes :: "byte istream \<Rightarrow> nat \<Rightarrow> byte list \<times> byte istream" where
  "readBytes s count =
     (if eofbit s \<or> failbit s then (replicate count 0, s\<lparr>failbit := True\<rparr>)
      else
        (let avail = take count (drop (gpos s) (content s)) in
         if length avail = count then (avail, s\<lparr>gpos := gpos s + count\<rparr>)
         else (avail @ replicate (count - length avail) 0,
               s\<lparr>gpos := gpos s + length avail, eofbit := True, failbit := True\<rparr>)))"

text \<open>
  \<open>readDouble\<close> copies eight bytes of the file into a double (the layout of the platform,
  little-endian); a read that cannot deliver eight bytes leaves a double that is not
  specified, \<open>junk\<close>.
\<close>

definition readDouble :: "double \<Rightarrow> byte istream \<Rightarrow> double \<times> byte istream" where
  "readDouble junk s =
     (if eofbit s \<or> failbit s then (junk, s\<lparr>failbit := True\<rparr>)
      else if gpos s + 8 \<le> length (content s) then
        (foldr (\<lambda>b acc. push_bit 8 acc OR ucast b) (take 8 (drop (gpos s) (content s))) 0,
         s\<lparr>gpos := gpos s + 8\<rparr>)
      else (junk, s\<lparr>gpos := length (content s), eofbit := True, failbit := True\<rparr>))"

text \<open>\<open>num += bytes[i] << (8 * i)\<close> in 32-bit (respectively 64-bit) arithmetic.\<close>

definition readInt32 :: "byte istream \<Rightarrow> int32 \<times> byte istream" where
  "readInt32 s =
     (let (bytes, s') = readBytes s 4
      in (foldl (\<lambda>num i. num + push_bit (8 * i) (ucast (bytes ! i))) 0 [0..<4], s'))"

definition readInt64 :: "byte istream \<Rightarrow> int64 \<times> byte istream" where
  "readInt64 s =
     (let (bytes, s') = readBytes s 8
      in (foldl (\<lambda>num i. num + push_bit (8 * i) (ucast (bytes ! i))) 0 [0..<8], s'))"

definition readInt :: "byte \<Rightarrow> byte istream \<Rightarrow> int32 \<times> byte istream" where
  "readInt junk s =
     (let (b, s') = readByte junk s
      in if b < 254 then (ucast b, s') else readInt32 s')"

text \<open>
  \<open>seekg\<close> relative to the current position, to the beginning and to the end. It clears
  \<open>eofbit\<close>, does nothing more on a failed stream, and fails on a position before the
  beginning of the file.
\<close>

definition seekg_to :: "'a istream \<Rightarrow> int \<Rightarrow> 'a istream" where
  "seekg_to s target =
     (let s' = s\<lparr>eofbit := False\<rparr>
      in if failbit s' then s'
         else if target < 0 then s'\<lparr>failbit := True\<rparr>
         else s'\<lparr>gpos := nat target\<rparr>)"

definition seekg_cur :: "'a istream \<Rightarrow> int \<Rightarrow> 'a istream" where
  "seekg_cur s off = seekg_to s (int (gpos s) + off)"

definition seekg_beg :: "'a istream \<Rightarrow> int \<Rightarrow> 'a istream" where
  "seekg_beg s off = seekg_to s off"

definition seekg_end :: "'a istream \<Rightarrow> int \<Rightarrow> 'a istream" where
  "seekg_end s off = seekg_to s (int (length (content s)) + off)"

text \<open>
  \<open>readShortInt\<close> updates the current byte and the bit cursor through pointers; here
  they are returned with the value and the stream. \<open>readEscaped\<close> is the last branch of
  each of its four cases: the count as a full integer, then the next byte read ahead.
\<close>

definition readEscaped ::
  "byte \<Rightarrow> byte istream \<Rightarrow> int32 \<times> byte istream \<times> byte \<times> nat" where
  "readEscaped junk s =
     (let (tbr, s1) = readInt junk s;
          (b, s2) = readByte junk s1
      in (tbr, s2, b, 0))"

definition readShortInt ::
  "byte \<Rightarrow> byte istream \<Rightarrow> byte \<Rightarrow> nat \<Rightarrow> int32 \<times> byte istream \<times> byte \<times> nat" where
  "readShortInt junk s currByte currIndex =
    (if currIndex = 0 then
       (let twoBits = currByte AND 0b00000011 in
        if twoBits = 0b00 then (0, s, currByte, 2)
        else if twoBits = 0b01 then (2, s, currByte, 2)
        else if twoBits = 0b10 then (3, s, currByte, 2)
        else
          (let fourBits = currByte AND 0b00001111 in
           if fourBits = 0b0011 then (1, s, currByte, 4)
           else if fourBits = 0b0111 then (4, s, currByte, 4)
           else if fourBits = 0b1011 then (5, s, currByte, 4)
           else readEscaped junk s))
     else if currIndex = 2 then
       (let twoBits = drop_bit 2 (currByte AND 0b00001100) in
        if twoBits = 0b00 then (0, s, currByte, 4)
        else if twoBits = 0b01 then (2, s, currByte, 4)
        else if twoBits = 0b10 then (3, s, currByte, 4)
        else
          (let fourBits = drop_bit 2 (currByte AND 0b00111100) in
           if fourBits = 0b0011 then (1, s, currByte, 6)
           else if fourBits = 0b0111 then (4, s, currByte, 6)
           else if fourBits = 0b1011 then (5, s, currByte, 6)
           else readEscaped junk s))
     else if currIndex = 4 then
       (let twoBits = drop_bit 4 (currByte AND 0b00110000) in
        if twoBits = 0b00 then (0, s, currByte, 6)
        else if twoBits = 0b01 then (2, s, currByte, 6)
        else if twoBits = 0b10 then (3, s, currByte, 6)
        else
          (let fourBits = drop_bit 4 (currByte AND 0b11110000) in
           if fourBits = 0b0011 then (let (b, s') = readByte junk s in (1, s', b, 0))
           else if fourBits = 0b0111 then (let (b, s') = readByte junk s in (4, s', b, 0))
           else if fourBits = 0b1011 then (let (b, s') = readByte junk s in (5, s', b, 0))
           else readEscaped junk s))
     else
       (let twoBits = drop_bit 6 (currByte AND 0b11000000);
            (b, s') = readByte junk s
        in if twoBits = 0b00 then (0, s', b, 0)
           else if twoBits = 0b01 then (2, s', b, 0)
           else if twoBits = 0b10 then (3, s', b, 0)
           else
             (let fourBits = twoBits OR push_bit 2 (b AND 0b00000011) in
              if fourBits = 0b0011 then (1, s', b, 2)
              else if fourBits = 0b0111 then (4, s', b, 2)
              else if fourBits = 0b1011 then (5, s', b, 2)
              else readEscaped junk s')))"

text \<open>
  \<open>n\<close> successive calls of \<open>readShortInt\<close> on the same two variables, the first byte
  read with \<open>readByte\<close> and the cursor starting at 0, as the comment above
  \<open>readShortInt\<close> prescribes and as \<open>readBinaryTree\<close> does (lines 334 to 339);
  after the last call the stream is sought back one byte when the cursor is 0
  (lines 364 to 367).
\<close>

fun readShortInts ::
  "byte \<Rightarrow> nat \<Rightarrow> byte istream \<Rightarrow> byte \<Rightarrow> nat \<Rightarrow> int32 list \<times> byte istream \<times> byte \<times> nat" where
  "readShortInts junk 0 s currByte currIndex = ([], s, currByte, currIndex)"
| "readShortInts junk (Suc n) s currByte currIndex =
     (let (v, s1, currByte1, currIndex1) = readShortInt junk s currByte currIndex;
          (vs, s2, currByte2, currIndex2) = readShortInts junk n s1 currByte1 currIndex1
      in (v # vs, s2, currByte2, currIndex2))"

definition readChildCounts :: "byte \<Rightarrow> nat \<Rightarrow> byte istream \<Rightarrow> int32 list \<times> byte istream" where
  "readChildCounts junk n s =
     (let (currByte, s1) = readByte junk s;
          (vs, s2, currByte2, currIndex2) = readShortInts junk n s1 currByte 0
      in (vs, if currIndex2 = 0 then seekg_cur s2 (- 1) else s2))"

section \<open>Trees (common.h, common.cpp)\<close>

text \<open>
  A \<open>std::string\<close> is a list of 8-bit characters. \<open>Attribute\<close>, \<open>phylo\<close> and
  \<open>multiPhylo\<close> are the structs of common.h; a \<open>column\<close> is the
  \<open>std::variant\<close> of a vector of strings and a vector of doubles, a \<open>cell\<close> the variant
  of a string and a double. A row of \<open>edge\<close> is the pair of its two entries.
\<close>

record Attribute =
  AttributeName :: string
  IsNumeric :: bool

datatype column = Strings "string list" | Doubles "double list"

datatype cell = Str string | Dbl double

record phylo =
  Nnode :: int
  rootEdge :: double
  edge :: "(int \<times> int) list"
  tipLabel :: "string list"
  nodeLabel :: "string list"
  edgeLength :: "double list"
  tipAttributes :: "column list"
  nodeAttributes :: "column list"
  attributes :: "Attribute list"
  hasEdgeLength :: bool
  hasNodeLabel :: bool

record multiPhylo =
  trees :: "phylo list"
  treeNames :: "string list"

text \<open>\<open>std::toupper\<close> in the C locale, and \<open>equalCI\<close> of common.cpp.\<close>

definition toupper :: "char \<Rightarrow> char" where
  "toupper c = (if 97 \<le> (of_char c :: nat) \<and> (of_char c :: nat) \<le> 122
                then char_of ((of_char c :: nat) - 32) else c)"

definition equalCI :: "string \<Rightarrow> string \<Rightarrow> bool" where
  "equalCI str1 str2 =
     (length str1 = length str2 \<and>
      list_all2 (\<lambda>c1 c2. c1 = c2 \<or> toupper c1 = toupper c2) str1 str2)"

definition NAMEATTRIBUTE :: string where "NAMEATTRIBUTE = ''name''"
definition LENGTHATTRIBUTE :: string where "LENGTHATTRIBUTE = ''length''"
definition SUPPORTATTRIBUTE :: string where "SUPPORTATTRIBUTE = ''support''"
definition TREENAMEATTRIBUTE :: string where "TREENAMEATTRIBUTE = ''treename''"

text \<open>\<open>std::to_string\<close> of a non-negative integer: its decimal digits.\<close>

fun digits :: "nat \<Rightarrow> nat \<Rightarrow> string" where
  "digits 0 n = []"
| "digits (Suc fuel) n =
     (if n < 10 then [char_of (48 + n)]
      else digits fuel (n div 10) @ [char_of (48 + n mod 10)])"

definition to_string_nat :: "nat \<Rightarrow> string" where
  "to_string_nat n = digits (Suc n) n"

section \<open>The binary reader (read\_binary\_tree.cpp)\<close>

text \<open>
  \<open>readMyString\<close>: the length, then one integer for each character, cut to a
  \<open>char\<close>. A negative length makes \<open>std::vector<char> chars(length)\<close> throw.
\<close>

fun readChars :: "byte \<Rightarrow> nat \<Rightarrow> byte istream \<Rightarrow> string \<times> byte istream" where
  "readChars junk 0 s = ([], s)"
| "readChars junk (Suc n) s =
     (let (v, s1) = readInt junk s;
          (cs, s2) = readChars junk n s1
      in (char_of (unat v) # cs, s2))"

definition readMyString :: "byte \<Rightarrow> byte istream \<Rightarrow> err + (string \<times> byte istream)" where
  "readMyString junk s =
     (let (len, s1) = readInt junk s
      in if sint len < 0 then Inl Thrown else Inr (readChars junk (nat (sint len)) s1))"

text \<open>
  The tables of the file: \<open>n\<close> strings, and \<open>n\<close> attributes (a name and a type
  tag, 2 for a numeric attribute).
\<close>

fun readStrings :: "byte \<Rightarrow> nat \<Rightarrow> byte istream \<Rightarrow> err + (string list \<times> byte istream)" where
  "readStrings junk 0 s = Inr ([], s)"
| "readStrings junk (Suc n) s =
     (case readMyString junk s of
        Inl e \<Rightarrow> Inl e
      | Inr (x, s1) \<Rightarrow>
          (case readStrings junk n s1 of
             Inl e \<Rightarrow> Inl e
           | Inr (xs, s2) \<Rightarrow> Inr (x # xs, s2)))"

fun readAttributes :: "byte \<Rightarrow> nat \<Rightarrow> byte istream \<Rightarrow> err + (Attribute list \<times> byte istream)" where
  "readAttributes junk 0 s = Inr ([], s)"
| "readAttributes junk (Suc n) s =
     (case readMyString junk s of
        Inl e \<Rightarrow> Inl e
      | Inr (name, s1) \<Rightarrow>
          (let (tag, s2) = readInt junk s1
           in case readAttributes junk n s2 of
                Inl e \<Rightarrow> Inl e
              | Inr (as, s3) \<Rightarrow>
                  Inr (\<lparr>AttributeName = name, IsNumeric = (tag = 2)\<rparr> # as, s3)))"


section \<open>Reading one tree: \<open>readBinaryTree\<close>\<close>

text \<open>
  The loop that reads the shape of the tree. \<open>parents\<close>, \<open>children\<close> and
  \<open>addedChildren\<close> are the three vectors of the source, \<open>currParent\<close> the node whose
  children are being read (\<open>-1\<close> above the root). A negative child count makes
  \<open>std::vector<int32_t>(currCount)\<close> throw. The inner loop \<open>climb\<close> walks up to the
  nearest ancestor that still lacks a child. Nothing in the file bounds either loop:
  both are partial functions.
\<close>

partial_function (option) climb ::
  "int list \<Rightarrow> int list list \<Rightarrow> nat list \<Rightarrow> int \<Rightarrow> (err + int) option" where
  "climb parents children addedChildren currParent =
     (if currParent \<ge> 0 then
        (if nat currParent < length children \<and> nat currParent < length addedChildren
            \<and> nat currParent < length parents then
           (if length (children ! nat currParent) = addedChildren ! nat currParent
            then climb parents children addedChildren (parents ! nat currParent)
            else Some (Inr currParent))
         else Some (Inl Indeterminate))
      else Some (Inr currParent))"

declare climb.simps [code]

partial_function (option) readShape ::
  "byte \<Rightarrow> int list \<Rightarrow> int list list \<Rightarrow> nat list \<Rightarrow> int \<Rightarrow> nat \<Rightarrow> byte istream \<Rightarrow> byte \<Rightarrow> nat
   \<Rightarrow> (err + (int list \<times> int list list \<times> nat \<times> byte istream \<times> nat)) option" where
  "readShape junk parents children addedChildren currParent tipCount s currByte currIndex =
     (if currParent \<ge> 0 then
        (let (currCount, s1, currByte1, currIndex1) = readShortInt junk s currByte currIndex
         in if sint currCount < 0 then Some (Inl Thrown)
            else
              (let children1 = children @ [replicate (nat (sint currCount)) 0];
                   tipCount1 = (if currCount = 0 then tipCount + 1 else tipCount)
               in case climb parents children1 addedChildren currParent of
                    None \<Rightarrow> None
                  | Some (Inl e) \<Rightarrow> Some (Inl e)
                  | Some (Inr cp) \<Rightarrow>
                      if cp \<ge> 0 then
                        (let newNode = int (length parents);
                             k = addedChildren ! nat cp
                         in readShape junk (parents @ [cp])
                              (children1[nat cp := (children1 ! nat cp)[k := newNode]])
                              (addedChildren[nat cp := k + 1] @ [0])
                              newNode tipCount1 s1 currByte1 currIndex1)
                      else readShape junk parents children1 addedChildren cp tipCount1
                             s1 currByte1 currIndex1))
      else Some (Inr (parents, children, tipCount, s, currIndex)))"

declare readShape.simps [code]

text \<open>
  The name of a node when the file has a global table of names: 0 is the empty name, a
  byte up to 254 starts the 1-based index of the name in the table, 255 a name written
  in place.
\<close>

definition readNodeName ::
  "byte \<Rightarrow> bool \<Rightarrow> string list \<Rightarrow> byte istream \<Rightarrow> err + (string \<times> byte istream)" where
  "readNodeName junk globalNames names s =
     (if \<not> globalNames then readMyString junk s
      else
        (let (b, s1) = readByte junk s
         in if b = 0 then Inr ([], s1)
            else if b \<le> 254 then
              (let (index, s2) = readInt junk (seekg_cur s1 (- 1))
               in if 1 \<le> sint index \<and> nat (sint index - 1) < length names
                  then Inr (names ! nat (sint index - 1), s2)
                  else Inl Indeterminate)
            else readMyString junk s1))"

text \<open>
  The values of the attributes of node \<open>i\<close>. The state is the stream and the vectors
  \<open>edgeLengths\<close>, \<open>nodeNames\<close> and \<open>nodeAttributes\<close> (one row for each attribute, one
  cell for each node). \<open>nodeSupport\<close> is written by the source and never read.
\<close>

type_synonym nodeState = "byte istream \<times> double list \<times> string list \<times> cell list list"

definition readAttributeValue ::
  "byte \<Rightarrow> double \<Rightarrow> bool \<Rightarrow> string list \<Rightarrow> Attribute list \<Rightarrow> nat \<Rightarrow> nodeState
   \<Rightarrow> err + nodeState" where
  "readAttributeValue junk junkd globalNames names attrs i st =
     (let (s, edgeLengths, nodeNames, nodeAttrs) = st;
          (attributeIndex, s1) = readInt junk s
      in if sint attributeIndex < 0 \<or> nat (sint attributeIndex) \<ge> length attrs
         then Inl Indeterminate
         else
           (let k = nat (sint attributeIndex);
                attributeName = AttributeName (attrs ! k);
                isNumeric = IsNumeric (attrs ! k)
            in if isNumeric then
                 (let (d, s2) = readDouble junkd s1
                  in if equalCI attributeName LENGTHATTRIBUTE then
                       Inr (s2, edgeLengths[i := d], nodeNames,
                            nodeAttrs[k := (nodeAttrs ! k)[i := Dbl d]])
                     else if equalCI attributeName SUPPORTATTRIBUTE then
                       Inr (s2, edgeLengths, nodeNames,
                            nodeAttrs[k := (nodeAttrs ! k)[i := Dbl d]])
                     else
                       Inr (s2, edgeLengths, nodeNames,
                            nodeAttrs[k := (nodeAttrs ! k)[i := Dbl d]]))
               else if \<not> equalCI attributeName NAMEATTRIBUTE then
                 (case readMyString junk s1 of
                    Inl e \<Rightarrow> Inl e
                  | Inr (x, s2) \<Rightarrow>
                      Inr (s2, edgeLengths, nodeNames,
                           nodeAttrs[k := (nodeAttrs ! k)[i := Str x]]))
               else
                 (case readNodeName junk globalNames names s1 of
                    Inl e \<Rightarrow> Inl e
                  | Inr (x, s2) \<Rightarrow>
                      Inr (s2, edgeLengths, nodeNames[i := x],
                           nodeAttrs[k := (nodeAttrs ! k)[i := Str x]]))))"

fun readAttributeValues ::
  "byte \<Rightarrow> double \<Rightarrow> bool \<Rightarrow> string list \<Rightarrow> Attribute list \<Rightarrow> nat \<Rightarrow> nat \<Rightarrow> nodeState
   \<Rightarrow> err + nodeState" where
  "readAttributeValues junk junkd globalNames names attrs i 0 st = Inr st"
| "readAttributeValues junk junkd globalNames names attrs i (Suc n) st =
     (case readAttributeValue junk junkd globalNames names attrs i st of
        Inl e \<Rightarrow> Inl e
      | Inr st1 \<Rightarrow> readAttributeValues junk junkd globalNames names attrs i n st1)"

text \<open>The loop over the nodes \<open>i = 0, ..., nodeCount - 1\<close>, given as the list of indices.\<close>

fun readNodes ::
  "byte \<Rightarrow> double \<Rightarrow> bool \<Rightarrow> string list \<Rightarrow> Attribute list \<Rightarrow> nat list \<Rightarrow> nodeState
   \<Rightarrow> err + nodeState" where
  "readNodes junk junkd globalNames names attrs [] st = Inr st"
| "readNodes junk junkd globalNames names attrs (i # is) st =
     (let (s, edgeLengths, nodeNames, nodeAttrs) = st;
          (attributeCount, s1) = readInt junk s
      in case readAttributeValues junk junkd globalNames names attrs i
                (nat (sint attributeCount)) (s1, edgeLengths, nodeNames, nodeAttrs) of
           Inl e \<Rightarrow> Inl e
         | Inr st1 \<Rightarrow> readNodes junk junkd globalNames names attrs is st1)"

text \<open>
  The indices \<open>nameAttributeIndex\<close> and \<open>supportAttributeIndex\<close>: the last attribute
  that qualifies, \<open>-1\<close> when there is none.
\<close>

definition lastIndex :: "('a \<Rightarrow> bool) \<Rightarrow> 'a list \<Rightarrow> int" where
  "lastIndex P xs = foldl (\<lambda>acc i. if P (xs ! i) then int i else acc) (- 1) [0..<length xs]"

definition isNameAttribute :: "Attribute \<Rightarrow> bool" where
  "isNameAttribute a = (equalCI (AttributeName a) NAMEATTRIBUTE \<and> \<not> IsNumeric a)"

definition isSupportAttribute :: "Attribute \<Rightarrow> bool" where
  "isSupportAttribute a =
     (\<not> isNameAttribute a \<and> equalCI (AttributeName a) SUPPORTATTRIBUTE \<and> IsNumeric a)"

text \<open>
  Splitting the nodes into tips and internal nodes. \<open>storeCell\<close> is one assignment
  \<open>std::get<...>(column)[idx] = std::get<...>(cell)\<close>; \<open>std::get\<close> throws on the other
  alternative of the variant.
\<close>

definition emptyColumn :: "nat \<Rightarrow> Attribute \<Rightarrow> column" where
  "emptyColumn n a = (if IsNumeric a then Doubles (replicate n 0) else Strings (replicate n []))"

definition storeCell :: "Attribute \<Rightarrow> column \<Rightarrow> nat \<Rightarrow> cell \<Rightarrow> err + column" where
  "storeCell a col idx c =
     (if IsNumeric a then
        (case col of
           Doubles ds \<Rightarrow> (case c of Dbl d \<Rightarrow> Inr (Doubles (ds[idx := d])) | Str x \<Rightarrow> Inl Thrown)
         | Strings ss \<Rightarrow> Inl Thrown)
      else
        (case col of
           Strings ss \<Rightarrow> (case c of Str x \<Rightarrow> Inr (Strings (ss[idx := x])) | Dbl d \<Rightarrow> Inl Thrown)
         | Doubles ds \<Rightarrow> Inl Thrown))"

fun storeRow :: "Attribute list \<Rightarrow> column list \<Rightarrow> cell list \<Rightarrow> nat \<Rightarrow> err + column list" where
  "storeRow (a # as) (col # cols) (c # cs) idx =
     (case storeCell a col idx c of
        Inl e \<Rightarrow> Inl e
      | Inr col1 \<Rightarrow>
          (case storeRow as cols cs idx of
             Inl e \<Rightarrow> Inl e
           | Inr cols1 \<Rightarrow> Inr (col1 # cols1)))"
| "storeRow as cols cs idx = Inr []"

type_synonym splitState = "int \<times> int \<times> int list \<times> string list \<times> column list \<times> column list"

fun splitNodes ::
  "Attribute list \<Rightarrow> int list list \<Rightarrow> string list \<Rightarrow> cell list list \<Rightarrow> nat \<Rightarrow> nat list
   \<Rightarrow> splitState \<Rightarrow> err + splitState" where
  "splitNodes attrs children nodeNames nodeAttrs tipCount [] st = Inr st"
| "splitNodes attrs children nodeNames nodeAttrs tipCount (i # is) st =
     (let (tipIndex, nonTipIndex, correspondences, tipLabels, tipAttrs, internalNodeAttrs) = st
      in if length (children ! i) = 0 then
           (let tipIndex1 = tipIndex + 1
            in case storeRow attrs tipAttrs (map (\<lambda>row. row ! i) nodeAttrs) (nat tipIndex1) of
                 Inl e \<Rightarrow> Inl e
               | Inr tipAttrs1 \<Rightarrow>
                   splitNodes attrs children nodeNames nodeAttrs tipCount is
                     (tipIndex1, nonTipIndex, correspondences[i := tipIndex1],
                      tipLabels[nat tipIndex1 := nodeNames ! i], tipAttrs1, internalNodeAttrs))
         else
           (let nonTipIndex1 = nonTipIndex + 1
            in case storeRow attrs internalNodeAttrs (map (\<lambda>row. row ! i) nodeAttrs)
                      (nat nonTipIndex1) of
                 Inl e \<Rightarrow> Inl e
               | Inr internalNodeAttrs1 \<Rightarrow>
                   splitNodes attrs children nodeNames nodeAttrs tipCount is
                     (tipIndex, nonTipIndex1,
                      correspondences[i := nonTipIndex1 + int tipCount],
                      tipLabels, tipAttrs, internalNodeAttrs1)))"

text \<open>
  The end of \<open>readBinaryTree\<close>, from the declaration of \<open>correspondences\<close> on: the tree
  built from the vectors that the loops above have filled. \<open>to_string\<close> is
  \<open>std::to_string\<close> on doubles.
\<close>

definition buildPhylo ::
  "(double \<Rightarrow> string) \<Rightarrow> Attribute list \<Rightarrow> int list \<Rightarrow> int list list \<Rightarrow> nat
   \<Rightarrow> double list \<Rightarrow> string list \<Rightarrow> cell list list \<Rightarrow> err + phylo" where
  "buildPhylo to_string attrs parents children tipCount edgeLengths nodeNames nodeAttrs =
     (let nodeCount = length parents;
          nameAttributeIndex = lastIndex isNameAttribute attrs;
          supportAttributeIndex = lastIndex isSupportAttribute attrs
      in case splitNodes attrs children nodeNames nodeAttrs tipCount [0..<nodeCount]
                (- 1, - 1, replicate nodeCount 0, replicate tipCount [],
                 map (emptyColumn tipCount) attrs,
                 map (emptyColumn (nodeCount - tipCount)) attrs) of
           Inl e \<Rightarrow> Inl e
         | Inr (tipIndex, nonTipIndex, correspondences, tipLabels, tipAttrs, internalNodeAttrs) \<Rightarrow>
            (let edges = map (\<lambda>i. (correspondences ! nat (parents ! i), correspondences ! i))
                           [1..<nodeCount];
                 correspEdgeLengths = map (\<lambda>i. edgeLengths ! i) [1..<nodeCount];
                 tbr = \<lparr>Nnode = int nodeCount - int tipCount,
                        rootEdge = edgeLengths ! 0,
                        edge = edges,
                        tipLabel = tipLabels,
                        nodeLabel = [],
                        edgeLength = correspEdgeLengths,
                        tipAttributes = tipAttrs,
                        nodeAttributes = internalNodeAttrs,
                        attributes = attrs,
                        hasEdgeLength = (\<exists>d \<in> set correspEdgeLengths. \<not> isnan d),
                        hasNodeLabel = False\<rparr>
             in if nameAttributeIndex \<ge> 0 then
                  (case internalNodeAttrs ! nat nameAttributeIndex of
                     Doubles ds \<Rightarrow> Inl Thrown
                   | Strings ss \<Rightarrow>
                       if \<exists>x \<in> set ss. x \<noteq> [] then
                         Inr (tbr\<lparr>nodeLabel := ss, hasNodeLabel := True\<rparr>)
                       else if supportAttributeIndex \<ge> 0 then
                         (case internalNodeAttrs ! nat supportAttributeIndex of
                            Strings ss2 \<Rightarrow> Inl Thrown
                          | Doubles ds \<Rightarrow>
                              if \<exists>d \<in> set ds. positive d then
                                Inr (tbr\<lparr>nodeLabel := map to_string ds, hasNodeLabel := True\<rparr>)
                              else Inr tbr)
                       else Inr tbr)
                else if supportAttributeIndex \<ge> 0 then
                  (case internalNodeAttrs ! nat supportAttributeIndex of
                     Strings ss2 \<Rightarrow> Inl Thrown
                   | Doubles ds \<Rightarrow>
                       if \<exists>d \<in> set ds. positive d then
                         Inr (tbr\<lparr>nodeLabel := map to_string ds, hasNodeLabel := True\<rparr>)
                       else Inr tbr)
                else Inr tbr))"

text \<open>
  \<open>readBinaryTree\<close>: the attributes of the tree when the record has its own table, the
  shape, the rewind of the byte read ahead, the values of the attributes of each node,
  and the tree. The result is the tree and the stream after the record.
\<close>

definition readBinaryTree ::
  "byte \<Rightarrow> double \<Rightarrow> (double \<Rightarrow> string) \<Rightarrow> byte istream \<Rightarrow> bool \<Rightarrow> string list \<Rightarrow> Attribute list
   \<Rightarrow> (err + (phylo \<times> byte istream)) option" where
  "readBinaryTree junk junkd to_string file globalNames names attributes0 =
     (let (numAttributes, s1) = readInt junk file
      in case (if sint numAttributes > 0
               then readAttributes junk (nat (sint numAttributes)) s1
               else Inr (attributes0, s1)) of
           Inl e \<Rightarrow> Some (Inl e)
         | Inr (attrs, s2) \<Rightarrow>
            (let (currByte, s3) = readByte junk s2
             in case readShape junk [- 1] [] [0] 0 0 s3 currByte 0 of
                  None \<Rightarrow> None
                | Some (Inl e) \<Rightarrow> Some (Inl e)
                | Some (Inr (parents, children, tipCount, s4, currIndex)) \<Rightarrow>
                   (let s5 = (if currIndex = 0 then seekg_cur s4 (- 1) else s4);
                        nodeCount = length parents
                    in case readNodes junk junkd globalNames names attrs [0..<nodeCount]
                              (s5, replicate nodeCount nan, replicate nodeCount [],
                               map (\<lambda>a. replicate nodeCount (if IsNumeric a then Dbl nan else Str []))
                                 attrs) of
                         Inl e \<Rightarrow> Some (Inl e)
                       | Inr (s6, edgeLengths, nodeNames, nodeAttrs) \<Rightarrow>
                          (case buildPhylo to_string attrs parents children tipCount
                                  edgeLengths nodeNames nodeAttrs of
                             Inl e \<Rightarrow> Some (Inl e)
                           | Inr tbr \<Rightarrow> Some (Inr (tbr, s6))))))"

section \<open>Reading a file of trees: \<open>readBinaryTrees\<close>\<close>

text \<open>\<open>tellg\<close> is \<open>-1\<close> on a failed stream.\<close>

definition tellg :: "'a istream \<Rightarrow> int" where
  "tellg s = (if failbit s then - 1 else int (gpos s))"

definition hasValidTrailer :: "byte istream \<Rightarrow> bool \<times> byte istream" where
  "hasValidTrailer file =
     (let currPos = tellg file;
          (trailer, s1) = readBytes (seekg_end file (- 4)) 4
      in (trailer ! 0 = 0x45 \<and> trailer ! 1 = 0x4e \<and> trailer ! 2 = 0x44 \<and> trailer ! 3 = 0xff,
          seekg_beg s1 currPos))"

text \<open>
  The name of the \<open>i\<close>-th tree: \<open>tree\<close>\<open>i\<close>, unless the tree has an attribute called
  \<open>TreeName\<close> (the first one, in any letter case) whose value at the first internal node
  is not empty.
\<close>

definition firstIndex :: "('a \<Rightarrow> bool) \<Rightarrow> 'a list \<Rightarrow> int" where
  "firstIndex P xs = (case filter (\<lambda>j. P (xs ! j)) [0..<length xs] of [] \<Rightarrow> - 1 | j # js \<Rightarrow> int j)"

definition treeName :: "nat \<Rightarrow> phylo \<Rightarrow> err + string" where
  "treeName i tree =
     (let treeName0 = ''tree'' @ to_string_nat i;
          treeNameIndex =
            firstIndex (\<lambda>a. equalCI (AttributeName a) TREENAMEATTRIBUTE) (attributes tree)
      in if treeNameIndex \<ge> 0 \<and> length (nodeAttributes tree) > 0 then
           (if nat treeNameIndex < length (nodeAttributes tree) then
              (case nodeAttributes tree ! nat treeNameIndex of
                 Doubles ds \<Rightarrow> Inl Thrown
               | Strings ss \<Rightarrow>
                   (case ss of
                      [] \<Rightarrow> Inl Indeterminate
                    | x # xs \<Rightarrow> Inr (if x \<noteq> [] then x else treeName0)))
            else Inl Indeterminate)
         else Inr treeName0)"

text \<open>The table of the addresses of the trees, at the end of a file with a valid trailer.\<close>

fun readInt64s :: "nat \<Rightarrow> byte istream \<Rightarrow> int64 list \<times> byte istream" where
  "readInt64s 0 s = ([], s)"
| "readInt64s (Suc n) s =
     (let (a, s1) = readInt64 s;
          (as, s2) = readInt64s n s1
      in (a # as, s2))"

text \<open>
  The two loops over the trees. With a valid trailer each tree is read at its address,
  and an exception ends the call. Without one the trees are read one after the other,
  each where the one before it ended, until \<open>readBinaryTree\<close> throws: \<open>catch (...)\<close> ends
  the loop and the trees read so far are the result. Computing the name of a tree is
  outside the \<open>try\<close> block.
\<close>

fun readAtAddresses ::
  "byte \<Rightarrow> double \<Rightarrow> (double \<Rightarrow> string) \<Rightarrow> bool \<Rightarrow> string list \<Rightarrow> Attribute list
   \<Rightarrow> int64 list \<Rightarrow> byte istream \<Rightarrow> nat \<Rightarrow> phylo list \<Rightarrow> string list \<Rightarrow> (err + multiPhylo) option" where
  "readAtAddresses junk junkd to_string globalNames allNames allAttributes [] file i
       parsedTrees names =
     Some (Inr \<lparr>trees = parsedTrees, treeNames = names\<rparr>)"
| "readAtAddresses junk junkd to_string globalNames allNames allAttributes (a # as) file i
       parsedTrees names =
     (case readBinaryTree junk junkd to_string (seekg_beg file (sint a))
             globalNames allNames allAttributes of
        None \<Rightarrow> None
      | Some (Inl e) \<Rightarrow> Some (Inl e)
      | Some (Inr (tree, s1)) \<Rightarrow>
          (case treeName (i + 1) tree of
             Inl e \<Rightarrow> Some (Inl e)
           | Inr name \<Rightarrow>
               readAtAddresses junk junkd to_string globalNames allNames allAttributes as s1
                 (i + 1) (parsedTrees @ [tree]) (names @ [name])))"

partial_function (option) readSequentially ::
  "byte \<Rightarrow> double \<Rightarrow> (double \<Rightarrow> string) \<Rightarrow> bool \<Rightarrow> string list \<Rightarrow> Attribute list
   \<Rightarrow> byte istream \<Rightarrow> nat \<Rightarrow> phylo list \<Rightarrow> string list \<Rightarrow> (err + multiPhylo) option" where
  "readSequentially junk junkd to_string globalNames allNames allAttributes file i
       parsedTrees names =
     (case readBinaryTree junk junkd to_string file globalNames allNames allAttributes of
        None \<Rightarrow> None
      | Some (Inl e) \<Rightarrow>
          if e = Indeterminate then Some (Inl Indeterminate)
          else Some (Inr \<lparr>trees = parsedTrees, treeNames = names\<rparr>)
      | Some (Inr (tree, s1)) \<Rightarrow>
          (case treeName (i + 1) tree of
             Inl e \<Rightarrow> Some (Inl e)
           | Inr name \<Rightarrow>
               readSequentially junk junkd to_string globalNames allNames allAttributes s1
                 (i + 1) (parsedTrees @ [tree]) (names @ [name])))"

declare readSequentially.simps [code]

text \<open>
  The global tables, read from position 5: the names when bit 0 of the header byte is
  set, the attributes when bit 1 is set. A negative size makes the constructor of the
  vector throw.
\<close>

definition readGlobalNames ::
  "byte \<Rightarrow> bool \<Rightarrow> byte istream \<Rightarrow> err + (string list \<times> byte istream)" where
  "readGlobalNames junk globalNames s =
     (if globalNames then
        (let (numNames, s1) = readInt junk s
         in if sint numNames < 0 then Inl Thrown
            else readStrings junk (nat (sint numNames)) s1)
      else Inr ([], s))"

definition readGlobalAttributes ::
  "byte \<Rightarrow> bool \<Rightarrow> byte istream \<Rightarrow> err + (Attribute list \<times> byte istream)" where
  "readGlobalAttributes junk globalAttributes s =
     (if globalAttributes then
        (let (numAttributes, s1) = readInt junk s
         in if sint numAttributes < 0 then Inl Thrown
            else readAttributes junk (nat (sint numAttributes)) s1)
      else Inr ([], s))"

text \<open>
  \<open>readAddresses\<close> is the block under \<open>if (validTrailer)\<close> that reads the table of
  addresses.
\<close>

definition readAddresses :: "byte \<Rightarrow> byte istream \<Rightarrow> err + (int64 list \<times> byte istream)" where
  "readAddresses junk s =
     (let (labelAddress, s1) = readInt64 (seekg_end s (- 12));
          (numOfTrees, s2) = readInt junk (seekg_beg s1 (sint labelAddress))
      in if sint numOfTrees < 0 then Inl Thrown
         else Inr (readInt64s (nat (sint numOfTrees)) s2))"

text \<open>
  \<open>readBinaryTrees\<close> returns the trees and the warnings it has emitted
  (\<open>Rcpp::warning\<close>), or the error that ended it.
\<close>

definition readBinaryTrees ::
  "byte \<Rightarrow> double \<Rightarrow> (double \<Rightarrow> string) \<Rightarrow> byte istream
   \<Rightarrow> (err + (multiPhylo \<times> string list)) option" where
  "readBinaryTrees junk junkd to_string file =
     (let (header, s1) = readBytes file 4
      in if header ! 0 \<noteq> 0x23 \<or> header ! 1 \<noteq> 0x54 \<or> header ! 2 \<noteq> 0x52 \<or> header ! 3 \<noteq> 0x45
         then Some (Inl (Stop ''Invalid file header!''))
         else
           (let (headerByte, s2) = readByte junk s1
            in if headerByte AND 0xfc \<noteq> 0 then Some (Inl (Stop ''Invalid file header!''))
               else
                 (let globalNames = (headerByte AND 0x01 \<noteq> 0);
                      globalAttributes = (headerByte AND 0x02 \<noteq> 0);
                      (validTrailer, s3) = hasValidTrailer s2
                  in case (if validTrailer then readAddresses junk s3 else Inr ([], s3)) of
                       Inl e \<Rightarrow> Some (Inl e)
                     | Inr (treeAddresses, s4) \<Rightarrow>
                        (case readGlobalNames junk globalNames (seekg_beg s4 5) of
                           Inl e \<Rightarrow> Some (Inl e)
                         | Inr (allNames, s5) \<Rightarrow>
                            (case readGlobalAttributes junk globalAttributes s5 of
                               Inl e \<Rightarrow> Some (Inl e)
                             | Inr (allAttributes, s6) \<Rightarrow>
                                if validTrailer then
                                  (case readAtAddresses junk junkd to_string globalNames
                                          allNames allAttributes treeAddresses s6 0 [] [] of
                                     None \<Rightarrow> None
                                   | Some (Inl e) \<Rightarrow> Some (Inl e)
                                   | Some (Inr tbr) \<Rightarrow> Some (Inr (tbr, [])))
                                else
                                  (case readSequentially junk junkd to_string globalNames
                                          allNames allAttributes s6 0 [] [] of
                                     None \<Rightarrow> None
                                   | Some (Inl e) \<Rightarrow> Some (Inl e)
                                   | Some (Inr tbr) \<Rightarrow>
                                       Some (Inr (tbr, [''Invalid file trailer!'']))))))))"

section \<open>Sequential decoding, as the specification words it\<close>


section \<open>Writing a file of trees: the scan of \<open>writeBinaryTrees\<close> (write\_binary\_tree.cpp)\<close>

text \<open>
  A \<open>std::map\<close> from keys to indices is the list of its entries; \<open>map_insert\<close> is
  \<open>std::map::insert\<close>, which adds the entry when no key of the map is equivalent to the
  new key and tells whether it did. Names are compared as strings; \<open>AttributeLess\<close>
  compares the names of two attributes only, so two attributes are the same key when
  their names are equal.
\<close>

definition map_insert ::
  "('k \<Rightarrow> 'k \<Rightarrow> bool) \<Rightarrow> 'k \<Rightarrow> 'v \<Rightarrow> ('k \<times> 'v) list \<Rightarrow> ('k \<times> 'v) list \<times> bool" where
  "map_insert same k v m =
     (if list_ex (\<lambda>e. same (fst e) k) m then (m, False) else (m @ [(k, v)], True))"

definition sameAttribute :: "Attribute \<Rightarrow> Attribute \<Rightarrow> bool" where
  "sameAttribute lhs rhs = (AttributeName lhs = AttributeName rhs)"

text \<open>
  The state of the scan: the two lookups with their reverse vectors, and the two flags.
\<close>

record scan =
  allNamesLookup :: "(string \<times> nat) list"
  allNamesLookupReverse :: "string list"
  allAttributesLookup :: "(Attribute \<times> nat) list"
  allAttributesLookupReverse :: "Attribute list"
  includeNamesPerTree :: bool
  includeAttributesPerTree :: bool

definition scan0 :: scan where
  "scan0 = \<lparr>allNamesLookup = [], allNamesLookupReverse = [], allAttributesLookup = [],
            allAttributesLookupReverse = [], includeNamesPerTree = False,
            includeAttributesPerTree = False\<rparr>"

text \<open>The loop over the attributes of a tree (the insertions; \<open>nameIndex\<close> is \<open>lastIndex\<close>).\<close>

fun addAttributes ::
  "Attribute list \<Rightarrow> (Attribute \<times> nat) list \<times> Attribute list
   \<Rightarrow> (Attribute \<times> nat) list \<times> Attribute list" where
  "addAttributes [] st = st"
| "addAttributes (a # as) (lookup, reverse) =
     (let (lookup1, inserted) = map_insert sameAttribute a (length lookup) lookup
      in addAttributes as (lookup1, if inserted then reverse @ [a] else reverse))"

text \<open>
  The two loops over the names of the internal nodes and of the tips: \<open>count\<close> counts
  the names that are not empty, and each of them is inserted.
\<close>

fun addNames ::
  "string list \<Rightarrow> nat \<times> (string \<times> nat) list \<times> string list
   \<Rightarrow> nat \<times> (string \<times> nat) list \<times> string list" where
  "addNames [] st = st"
| "addNames (n # ns) (count, lookup, reverse) =
     (if length n > 0 then
        (let (lookup1, inserted) = map_insert (=) n (length lookup) lookup
         in addNames ns (count + 1, lookup1, if inserted then reverse @ [n] else reverse))
      else addNames ns (count, lookup, reverse))"

text \<open>
  The columns of names of a tree: \<open>nodeAttributes[nameIndex]\<close> and
  \<open>tipAttributes[nameIndex]\<close>, read as vectors of strings. The source indexes with
  \<open>nameIndex = -1\<close> when the tree has no text attribute called Name.
\<close>

definition nameColumns :: "phylo \<Rightarrow> err + (string list \<times> string list)" where
  "nameColumns tree =
     (let nameIndex = lastIndex isNameAttribute (attributes tree)
      in if nameIndex < 0 \<or> nat nameIndex \<ge> length (nodeAttributes tree)
            \<or> nat nameIndex \<ge> length (tipAttributes tree)
         then Inl Indeterminate
         else
           (case nodeAttributes tree ! nat nameIndex of
              Doubles ds \<Rightarrow> Inl Thrown
            | Strings nodeNames \<Rightarrow>
                (case tipAttributes tree ! nat nameIndex of
                   Doubles ds \<Rightarrow> Inl Thrown
                 | Strings tipNames \<Rightarrow> Inr (nodeNames, tipNames))))"

text \<open>One iteration of the loop over the trees, up to the test that ends the loop.\<close>

definition scanTree :: "phylo \<Rightarrow> scan \<Rightarrow> err + scan" where
  "scanTree tree st =
     (let prevNameCount = length (allNamesLookup st);
          prevAttributeCount = length (allAttributesLookup st);
          (attributesLookup, attributesReverse) =
             addAttributes (attributes tree) (allAttributesLookup st, allAttributesLookupReverse st)
      in case nameColumns tree of
           Inl e \<Rightarrow> Inl e
         | Inr (nodeNames, tipNames) \<Rightarrow>
            (let (count, namesLookup, namesReverse) =
                    addNames tipNames
                      (addNames nodeNames (0, allNamesLookup st, allNamesLookupReverse st));
                 maxAttributeCount =
                    max 0 (max (length (nodeAttributes tree)) (length (tipAttributes tree)))
             in Inr \<lparr>allNamesLookup = namesLookup,
                     allNamesLookupReverse = namesReverse,
                     allAttributesLookup = attributesLookup,
                     allAttributesLookupReverse = attributesReverse,
                     includeNamesPerTree =
                       (if prevNameCount \<noteq> 0 \<and> (length namesLookup - prevNameCount) * 2 > count
                        then True else includeNamesPerTree st),
                     includeAttributesPerTree =
                       (if prevAttributeCount \<noteq> 0
                           \<and> (length attributesLookup - prevAttributeCount) * 2 > maxAttributeCount
                        then True else includeAttributesPerTree st)\<rparr>))"

text \<open>The loop over the trees; it ends early once both flags are set.\<close>

fun scanTrees :: "phylo list \<Rightarrow> scan \<Rightarrow> err + scan" where
  "scanTrees [] st = Inr st"
| "scanTrees (tree # rest) st =
     (case scanTree tree st of
        Inl e \<Rightarrow> Inl e
      | Inr st1 \<Rightarrow>
          if includeNamesPerTree st1 \<and> includeAttributesPerTree st1 then Inr st1
          else scanTrees rest st1)"

text \<open>
  The beginning of \<open>writeBinaryTrees\<close>, up to the header byte: the scan, then the magic
  and the header byte written to the empty file. The result is the state of the scan
  and the five bytes written.
\<close>

definition headerByte :: "bool \<Rightarrow> bool \<Rightarrow> byte" where
  "headerByte namesPerTree attributesPerTree =
     (if \<not> namesPerTree \<and> \<not> attributesPerTree then 0b00000011
      else if \<not> namesPerTree \<and> attributesPerTree then 0b00000001
      else if namesPerTree \<and> \<not> attributesPerTree then 0b00000010
      else 0b00000000)"

definition writeBinaryTrees_header :: "multiPhylo \<Rightarrow> err + (scan \<times> byte list)" where
  "writeBinaryTrees_header mp =
     (case scanTrees (trees mp) scan0 of
        Inl e \<Rightarrow> Inl e
      | Inr st \<Rightarrow>
          Inr (st, writeByte (writeBytes [] [0x23, 0x54, 0x52, 0x45])
                     (headerByte (includeNamesPerTree st) (includeAttributesPerTree st))))"

section \<open>The choice of the tables, as the specification words it\<close>

text \<open>
  The names of a tree are the non-empty entries of its columns of names, its own name
  count their number; the names seen before a tree are the names of the trees before
  it. \<open>spec_names_per_tree\<close> is the condition of the specification: some tree after the
  first introduces more new names than half of its own name count.
  \<open>spec_attributes_per_tree\<close> is the same for the attributes, an attribute being new
  when no attribute of that name was seen.
\<close>

definition names_of :: "phylo \<Rightarrow> string list" where
  "names_of tree =
     (case nameColumns tree of
        Inl e \<Rightarrow> []
      | Inr (nodeNames, tipNames) \<Rightarrow> filter (\<lambda>n. n \<noteq> []) (nodeNames @ tipNames))"

definition names_seen :: "phylo list \<Rightarrow> string set" where
  "names_seen ts = set (concat (map names_of ts))"

definition attribute_names_of :: "phylo \<Rightarrow> string list" where
  "attribute_names_of tree = map AttributeName (attributes tree)"

definition attribute_names_seen :: "phylo list \<Rightarrow> string set" where
  "attribute_names_seen ts = set (concat (map attribute_names_of ts))"

definition attribute_count :: "phylo \<Rightarrow> nat" where
  "attribute_count tree = max (length (nodeAttributes tree)) (length (tipAttributes tree))"

definition spec_names_per_tree :: "phylo list \<Rightarrow> bool" where
  "spec_names_per_tree ts =
     (\<exists>i \<in> {0..<length ts}. 0 < i
        \<and> length (names_of (ts ! i)) < 2 * card (set (names_of (ts ! i)) - names_seen (take i ts)))"

definition spec_attributes_per_tree :: "phylo list \<Rightarrow> bool" where
  "spec_attributes_per_tree ts =
     (\<exists>i \<in> {0..<length ts}. 0 < i
        \<and> attribute_count (ts ! i)
            < 2 * card (set (attribute_names_of (ts ! i)) - attribute_names_seen (take i ts)))"

section \<open>Verification: the packed child counts\<close>

lemma writeInt_append: "writeInt stream v = stream @ writeInt [] v"
  by (simp add: writeInt_def writeByte_def writeInt32_def writeBytes_def)

lemma ucast_ucast_byte32:
  "(ucast (ucast (w :: int32) :: byte) :: int32) = w AND mask 8"
  by (auto simp: bit_eq_iff bit_simps)

lemma int32_bytes_sum:
  fixes v :: int32
  shows "ucast (ucast (v AND 0xff) :: byte) +
       push_bit 8 (ucast (ucast (drop_bit 8 (v AND 0xff00)) :: byte)) +
       push_bit 16 (ucast (ucast (drop_bit 16 (v AND 0xff0000)) :: byte)) +
       push_bit 24 (ucast (ucast (drop_bit 24 (v AND 0xff000000)) :: byte)) = v"
proof -
  have m: "(0xff :: int32) = mask 8" "(0xff00 :: int32) = push_bit 8 (mask 8)"
    "(0xff0000 :: int32) = push_bit 16 (mask 8)" "(0xff000000 :: int32) = push_bit 24 (mask 8)"
    by (simp_all add: mask_eq_exp_minus_1)
  let ?a = "(ucast (ucast (v AND mask 8) :: byte) :: int32)"
  let ?b = "push_bit 8 (ucast (ucast (drop_bit 8 (v AND push_bit 8 (mask 8))) :: byte)) :: int32"
  let ?c = "push_bit 16 (ucast (ucast (drop_bit 16 (v AND push_bit 16 (mask 8))) :: byte)) :: int32"
  let ?d = "push_bit 24 (ucast (ucast (drop_bit 24 (v AND push_bit 24 (mask 8))) :: byte)) :: int32"
  have 1: "?a + ?b = ?a OR ?b"
    by (rule disjunctive_add_eq_or) (auto simp: bit_eq_iff bit_simps)
  have 2: "(?a OR ?b) + ?c = (?a OR ?b) OR ?c"
    by (rule disjunctive_add_eq_or) (auto simp: bit_eq_iff bit_simps)
  have 3: "((?a OR ?b) OR ?c) + ?d = ((?a OR ?b) OR ?c) OR ?d"
    by (rule disjunctive_add_eq_or) (auto simp: bit_eq_iff bit_simps)
  have 4: "((?a OR ?b) OR ?c) OR ?d = v"
  proof (rule bit_eqI)
    fix n :: nat
    consider "n < 8" | "8 \<le> n \<and> n < 16" | "16 \<le> n \<and> n < 24" | "24 \<le> n" by linarith
    then show "bit (((?a OR ?b) OR ?c) OR ?d) n = bit v n"
      by cases (auto simp: bit_simps dest: bit_imp_le_length)
  qed
  show ?thesis unfolding m 1 2 3 4 ..
qed

lemma readBytes_exact:
  assumes "content s = pre @ bs @ post" "gpos s = length pre" "\<not> eofbit s" "\<not> failbit s"
  shows "readBytes s (length bs) = (bs, s\<lparr>gpos := length pre + length bs\<rparr>)"
  using assms by (simp add: readBytes_def Let_def)

lemma readInt32_writeInt32:
  assumes "content s = pre @ writeInt32 [] v @ post" "gpos s = length pre" "\<not> eofbit s" "\<not> failbit s"
  shows "readInt32 s = (v, s\<lparr>gpos := length pre + 4\<rparr>)"
proof -
  have l: "length (writeInt32 [] v) = 4" by (simp add: writeInt32_def writeBytes_def)
  have "readBytes s 4 = (writeInt32 [] v, s\<lparr>gpos := length pre + 4\<rparr>)"
    using readBytes_exact[OF assms] l by simp
  then show ?thesis
    using int32_bytes_sum[of v]
    by (simp add: readInt32_def writeInt32_def writeBytes_def upt_rec)
qed

lemma readByte_at:
  assumes "content s = pre @ b # post" "gpos s = length pre" "\<not> eofbit s" "\<not> failbit s"
  shows "readByte junk s = (b, s\<lparr>gpos := length pre + 1\<rparr>)"
  using assms by (simp add: readByte_def)

lemma small_nonneg:
  fixes v :: int32
  assumes "0 \<le> sint v" "sint v < 254"
  shows "(ucast v :: byte) < 254" "(ucast (ucast v :: byte) :: int32) = v"
proof -
  have u: "uint v = sint v" using assms(1)
    using sint_lt[of v] by (simp add: uint_sint take_bit_int_eq_self)
  then have lt: "uint v < 254" using assms by simp
  have "uint (ucast v :: byte) = take_bit 8 (uint v)"
    by (simp add: unsigned_ucast_eq)
  also have "\<dots> = uint v"
    using lt by (intro take_bit_int_eq_self) simp_all
  finally have "uint (ucast v :: byte) < 254" using lt by simp
  then show "(ucast v :: byte) < 254"
    by (simp add: word_less_def)
  have "uint v < 2 ^ 8" using lt by simp
  then have "v AND mask 8 = v"
    by (simp only: mask_eq_iff)
  then show "(ucast (ucast v :: byte) :: int32) = v"
    by (simp only: ucast_ucast_byte32)
qed

lemma readInt_writeInt:
  assumes "content s = pre @ writeInt [] v @ post" "gpos s = length pre" "\<not> eofbit s" "\<not> failbit s"
    and "0 \<le> sint v"
  shows "readInt junk s = (v, s\<lparr>gpos := length pre + length (writeInt [] v)\<rparr>)"
proof (cases "sint v < 254")
  case True
  then have w: "writeInt [] v = [ucast v]" by (simp add: writeInt_def writeByte_def)
  have "readByte junk s = (ucast v, s\<lparr>gpos := length pre + 1\<rparr>)"
    using assms(1-4) w by (intro readByte_at) simp_all
  then show ?thesis
    using small_nonneg[OF assms(5) True] w by (simp add: readInt_def)
next
  case False
  then have w: "writeInt [] v = 254 # writeInt32 [] v"
    by (simp add: writeInt_def writeByte_def writeInt32_def writeBytes_def)
  have rb: "readByte junk s = (254, s\<lparr>gpos := length pre + 1\<rparr>)"
    using assms(1-4) w by (intro readByte_at) simp_all
  let ?s1 = "s\<lparr>gpos := length pre + 1\<rparr>"
  have "readInt32 ?s1 = (v, ?s1\<lparr>gpos := length (pre @ [254]) + 4\<rparr>)"
    using assms(1-4) w by (intro readInt32_writeInt32[where post = post]) simp_all
  moreover have "length (writeInt32 [] v) = 4" by (simp add: writeInt32_def writeBytes_def)
  ultimately show ?thesis
    using rb w by (simp add: readInt_def)
qed


text \<open>
  The invariant of the round trip. \<open>cmask ci\<close> selects the bits of a byte below the
  bit cursor \<open>ci\<close>. The file \<open>C\<close> agrees with a state \<open>(out, cb, ci)\<close> of the writer
  when \<open>out\<close> is a prefix of \<open>C\<close> and, if the cursor is not 0, a byte follows it that
  holds, below the cursor, the bits of the byte under construction. The reader is then
  in the state that \<open>readByte\<close> leaves when called at position \<open>length out\<close>.
\<close>

definition cmask :: "nat \<Rightarrow> byte" where
  "cmask ci = (if ci = 0 then 0 else if ci = 2 then 3 else if ci = 4 then 15 else 63)"

definition agrees :: "byte list \<Rightarrow> byte list \<Rightarrow> byte \<Rightarrow> nat \<Rightarrow> bool" where
  "agrees C out cb ci =
     (take (length out) C = out \<and>
      (if ci = 0 then cb = 0 else length out < length C \<and> (C ! length out) AND cmask ci = cb))"

lemma take_length:
  assumes "take (length xs) C = xs"
  shows "length xs \<le> length C"
proof -
  have "length (take (length xs) C) = length xs" by (simp only: assms)
  then show ?thesis by simp
qed

lemma and_absorbed:
  fixes cb m t :: byte
  assumes "cb AND m = cb" "m AND t = 0"
  shows "cb AND t = 0"
proof -
  have "cb AND t = (cb AND m) AND t" by (simp only: assms(1))
  also have "\<dots> = cb AND (m AND t)" by (simp only: and.assoc)
  also have "\<dots> = 0" by (simp only: assms(2) and_zero_eq)
  finally show ?thesis .
qed

lemma test_noflush:
  fixes B cb k m m1 t :: byte
  assumes "B AND m1 = cb OR k" "cb AND m = cb" "t AND m1 = t" "m AND t = 0"
  shows "B AND t = k AND t"
proof -
  have "B AND t = B AND (m1 AND t)" using assms(3) by (simp only: and.commute)
  also have "\<dots> = (B AND m1) AND t" by (simp only: and.assoc)
  also have "\<dots> = (cb AND t) OR (k AND t)" by (simp only: assms(1) bit.conj_disj_distrib2)
  also have "\<dots> = k AND t" by (simp only: and_absorbed[OF assms(2,4)] or.left_neutral)
  finally show ?thesis .
qed

lemma test_noflush0:
  fixes B cb m m1 t :: byte
  assumes "B AND m1 = cb" "cb AND m = cb" "t AND m1 = t" "m AND t = 0"
  shows "B AND t = 0"
proof -
  have "B AND m1 = cb OR 0" using assms(1) by simp
  from test_noflush[OF this assms(2,3,4)] show ?thesis by simp
qed

lemma back_noflush:
  fixes B cb k m m1 :: byte
  assumes "B AND m1 = cb OR k" "cb AND m = cb" "m1 AND m = m" "k AND m = 0"
  shows "B AND m = cb"
proof -
  have "B AND m = B AND (m1 AND m)" by (simp only: assms(3))
  also have "\<dots> = (B AND m1) AND m" by (simp only: and.assoc)
  also have "\<dots> = (cb AND m) OR (k AND m)" by (simp only: assms(1) bit.conj_disj_distrib2)
  also have "\<dots> = cb" by (simp only: assms(2,4) or.right_neutral)
  finally show ?thesis .
qed

lemma back_noflush0:
  fixes B cb m m1 :: byte
  assumes "B AND m1 = cb" "cb AND m = cb" "m1 AND m = m"
  shows "B AND m = cb"
proof -
  have "B AND m1 = cb OR 0" using assms(1) by simp
  from back_noflush[OF this assms(2,3)] show ?thesis by simp
qed

lemma test_flush:
  fixes cb k m t :: byte
  assumes "cb AND m = cb" "m AND t = 0"
  shows "(cb OR k) AND t = k AND t"
  by (simp only: bit.conj_disj_distrib2 and_absorbed[OF assms] or.left_neutral)

lemma test_flush0:
  fixes cb m t :: byte
  assumes "cb AND m = cb" "m AND t = 0"
  shows "cb AND t = 0"
  by (rule and_absorbed[OF assms])

lemma back_flush:
  fixes cb k m :: byte
  assumes "cb AND m = cb" "k AND m = 0"
  shows "(cb OR k) AND m = cb"
  by (simp only: bit.conj_disj_distrib2 assms or.right_neutral)

lemma nth_of_take:
  assumes "take n C = xs" "i < length xs"
  shows "C ! i = xs ! i"
proof -
  have "i < n" using assms by auto
  then have "take n C ! i = C ! i" by simp
  then show ?thesis by (simp add: assms(1))
qed

lemma take_prefix: "take (length (xs @ ys)) C = xs @ ys \<Longrightarrow> take (length xs) C = xs"
proof -
  assume h: "take (length (xs @ ys)) C = xs @ ys"
  have "take (length xs) (take (length (xs @ ys)) C) = take (length xs) (xs @ ys)"
    by (simp only: h)
  then show ?thesis by (simp add: min_def)
qed

lemma take_split:
  assumes "take (length xs) C = xs"
  shows "C = xs @ drop (length xs) C"
proof -
  have "C = take (length xs) C @ drop (length xs) C" by simp
  then show ?thesis by (simp only: assms)
qed

lemma step_ci0:
  assumes W: "writeShortInt out v cb 0 = Inr (out1, cb1, ci1)"
    and hz: "cb AND 0 = cb"
    and v0: "0 \<le> sint v"
    and A: "agrees C out1 cb1 ci1"
    and s: "content s = C" "\<not> eofbit s" "\<not> failbit s"
  shows "readShortInt junk (snd (readByte junk (s\<lparr>gpos := length out\<rparr>)))
           (fst (readByte junk (s\<lparr>gpos := length out\<rparr>))) 0 =
           (v, snd (readByte junk (s\<lparr>gpos := length out1\<rparr>)),
            fst (readByte junk (s\<lparr>gpos := length out1\<rparr>)), ci1)
         \<and> agrees C out cb 0"
proof -
  have hz0: "cb = 0" using hz by simp
  consider (c0) "v = 0" | (c2) "v = 2" | (c3) "v = 3" | (c1) "v = 1" | (c4) "v = 4" | (c5) "v = 5"
    | (esc) "v \<noteq> 0" "v \<noteq> 2" "v \<noteq> 3" "v \<noteq> 1" "v \<noteq> 4" "v \<noteq> 5"
    by blast
  then show ?thesis
  proof cases
    case c0
    with W have e: "out1 = out" "cb1 = cb" "ci1 = 2"
      by (simp_all add: writeShortInt_def)
    from A have H: "(C ! length out) AND 3 = cb"
      and T: "take (length out) C = out" "length out < length C"
      by (simp_all add: agrees_def e cmask_def)
    have cur: "readByte junk (s\<lparr>gpos := length out\<rparr>) = (C ! length out, s\<lparr>gpos := length out + 1\<rparr>)"
      using s T(2) by (simp add: readByte_def)
    note r = test_noflush0[OF H hz] back_noflush0[OF H hz]
    show ?thesis
      using T hz0 unfolding e cur by (simp add: readShortInt_def case_prod_beta Let_def agrees_def cmask_def r c0)
  next
    case c2
    with W have e: "out1 = out" "cb1 = cb OR 1" "ci1 = 2"
      by (simp_all add: writeShortInt_def)
    from A have H: "(C ! length out) AND 3 = cb OR 1"
      and T: "take (length out) C = out" "length out < length C"
      by (simp_all add: agrees_def e cmask_def)
    have cur: "readByte junk (s\<lparr>gpos := length out\<rparr>) = (C ! length out, s\<lparr>gpos := length out + 1\<rparr>)"
      using s T(2) by (simp add: readByte_def)
    note r = test_noflush[OF H hz] back_noflush[OF H hz]
    show ?thesis
      using T hz0 unfolding e cur by (simp add: readShortInt_def case_prod_beta Let_def agrees_def cmask_def r c2)
  next
    case c3
    with W have e: "out1 = out" "cb1 = cb OR 2" "ci1 = 2"
      by (simp_all add: writeShortInt_def)
    from A have H: "(C ! length out) AND 3 = cb OR 2"
      and T: "take (length out) C = out" "length out < length C"
      by (simp_all add: agrees_def e cmask_def)
    have cur: "readByte junk (s\<lparr>gpos := length out\<rparr>) = (C ! length out, s\<lparr>gpos := length out + 1\<rparr>)"
      using s T(2) by (simp add: readByte_def)
    note r = test_noflush[OF H hz] back_noflush[OF H hz]
    show ?thesis
      using T hz0 unfolding e cur by (simp add: readShortInt_def case_prod_beta Let_def agrees_def cmask_def r c3)
  next
    case c1
    with W have e: "out1 = out" "cb1 = cb OR 3" "ci1 = 4"
      by (simp_all add: writeShortInt_def)
    from A have H: "(C ! length out) AND 15 = cb OR 3"
      and T: "take (length out) C = out" "length out < length C"
      by (simp_all add: agrees_def e cmask_def)
    have cur: "readByte junk (s\<lparr>gpos := length out\<rparr>) = (C ! length out, s\<lparr>gpos := length out + 1\<rparr>)"
      using s T(2) by (simp add: readByte_def)
    note r = test_noflush[OF H hz] back_noflush[OF H hz]
    show ?thesis
      using T hz0 unfolding e cur by (simp add: readShortInt_def case_prod_beta Let_def agrees_def cmask_def r c1)
  next
    case c4
    with W have e: "out1 = out" "cb1 = cb OR 7" "ci1 = 4"
      by (simp_all add: writeShortInt_def)
    from A have H: "(C ! length out) AND 15 = cb OR 7"
      and T: "take (length out) C = out" "length out < length C"
      by (simp_all add: agrees_def e cmask_def)
    have cur: "readByte junk (s\<lparr>gpos := length out\<rparr>) = (C ! length out, s\<lparr>gpos := length out + 1\<rparr>)"
      using s T(2) by (simp add: readByte_def)
    note r = test_noflush[OF H hz] back_noflush[OF H hz]
    show ?thesis
      using T hz0 unfolding e cur by (simp add: readShortInt_def case_prod_beta Let_def agrees_def cmask_def r c4)
  next
    case c5
    with W have e: "out1 = out" "cb1 = cb OR 11" "ci1 = 4"
      by (simp_all add: writeShortInt_def)
    from A have H: "(C ! length out) AND 15 = cb OR 11"
      and T: "take (length out) C = out" "length out < length C"
      by (simp_all add: agrees_def e cmask_def)
    have cur: "readByte junk (s\<lparr>gpos := length out\<rparr>) = (C ! length out, s\<lparr>gpos := length out + 1\<rparr>)"
      using s T(2) by (simp add: readByte_def)
    note r = test_noflush[OF H hz] back_noflush[OF H hz]
    show ?thesis
      using T hz0 unfolding e cur by (simp add: readShortInt_def case_prod_beta Let_def agrees_def cmask_def r c5)
  next
    case esc
    with W have e: "out1 = out @ [cb OR 15] @ writeInt [] v" "cb1 = 0" "ci1 = 0"
      by (simp_all add: writeShortInt_def writeByte_def writeInt_append[of "_ @ _"])
    from A have T: "take (length out1) C = out1"
      by (simp add: agrees_def)
    have L1: "length out1 \<le> length C"
      by (rule take_length[OF T])
    have L: "length out < length C"
      using L1 by (simp add: e)
    have B: "C ! length out = cb OR 15"
      using nth_of_take[OF T, of "length out"] by (simp add: e)
    have T0: "take (length out) C = out"
      by (rule take_prefix[OF T[unfolded e(1)]])
    have C: "C = (out @ [cb OR 15]) @ writeInt [] v @ drop (length out1) C"
      using take_split[OF T] by (simp add: e(1))
    let ?s1 = "s\<lparr>gpos := length (out @ [cb OR 15])\<rparr>"
    have RI: "readInt junk ?s1 = (v, ?s1\<lparr>gpos := length (out @ [cb OR 15]) + length (writeInt [] v)\<rparr>)"
      using s C by (intro readInt_writeInt[OF _ _ _ _ v0, where post = "drop (length out1) C"]) simp_all
    have RE: "readEscaped junk ?s1 =
        (v, snd (readByte junk (s\<lparr>gpos := length out1\<rparr>)), fst (readByte junk (s\<lparr>gpos := length out1\<rparr>)), 0)"
      using RI by (simp add: readEscaped_def case_prod_beta e)
    have cur: "readByte junk (s\<lparr>gpos := length out\<rparr>) = (C ! length out, s\<lparr>gpos := length out + 1\<rparr>)"
      using s L by (simp add: readByte_def)
    note r = test_flush[OF hz] back_flush[OF hz]
    show ?thesis
      using T0 L hz0 RE esc unfolding cur
      by (simp add: readShortInt_def case_prod_beta Let_def agrees_def cmask_def e(2,3) B r)
  qed
qed

lemma step_ci2:
  assumes W: "writeShortInt out v cb 2 = Inr (out1, cb1, ci1)"
    and hz: "cb AND 3 = cb"
    and v0: "0 \<le> sint v"
    and A: "agrees C out1 cb1 ci1"
    and s: "content s = C" "\<not> eofbit s" "\<not> failbit s"
  shows "readShortInt junk (snd (readByte junk (s\<lparr>gpos := length out\<rparr>)))
           (fst (readByte junk (s\<lparr>gpos := length out\<rparr>))) 2 =
           (v, snd (readByte junk (s\<lparr>gpos := length out1\<rparr>)),
            fst (readByte junk (s\<lparr>gpos := length out1\<rparr>)), ci1)
         \<and> agrees C out cb 2"
proof -
  consider (c0) "v = 0" | (c2) "v = 2" | (c3) "v = 3" | (c1) "v = 1" | (c4) "v = 4" | (c5) "v = 5"
    | (esc) "v \<noteq> 0" "v \<noteq> 2" "v \<noteq> 3" "v \<noteq> 1" "v \<noteq> 4" "v \<noteq> 5"
    by blast
  then show ?thesis
  proof cases
    case c0
    with W have e: "out1 = out" "cb1 = cb" "ci1 = 4"
      by (simp_all add: writeShortInt_def)
    from A have H: "(C ! length out) AND 15 = cb"
      and T: "take (length out) C = out" "length out < length C"
      by (simp_all add: agrees_def e cmask_def)
    have cur: "readByte junk (s\<lparr>gpos := length out\<rparr>) = (C ! length out, s\<lparr>gpos := length out + 1\<rparr>)"
      using s T(2) by (simp add: readByte_def)
    note r = test_noflush0[OF H hz] back_noflush0[OF H hz]
    show ?thesis
      using T  unfolding e cur by (simp add: readShortInt_def case_prod_beta Let_def agrees_def cmask_def r c0)
  next
    case c2
    with W have e: "out1 = out" "cb1 = cb OR 4" "ci1 = 4"
      by (simp_all add: writeShortInt_def)
    from A have H: "(C ! length out) AND 15 = cb OR 4"
      and T: "take (length out) C = out" "length out < length C"
      by (simp_all add: agrees_def e cmask_def)
    have cur: "readByte junk (s\<lparr>gpos := length out\<rparr>) = (C ! length out, s\<lparr>gpos := length out + 1\<rparr>)"
      using s T(2) by (simp add: readByte_def)
    note r = test_noflush[OF H hz] back_noflush[OF H hz]
    show ?thesis
      using T  unfolding e cur by (simp add: readShortInt_def case_prod_beta Let_def agrees_def cmask_def r c2)
  next
    case c3
    with W have e: "out1 = out" "cb1 = cb OR 8" "ci1 = 4"
      by (simp_all add: writeShortInt_def)
    from A have H: "(C ! length out) AND 15 = cb OR 8"
      and T: "take (length out) C = out" "length out < length C"
      by (simp_all add: agrees_def e cmask_def)
    have cur: "readByte junk (s\<lparr>gpos := length out\<rparr>) = (C ! length out, s\<lparr>gpos := length out + 1\<rparr>)"
      using s T(2) by (simp add: readByte_def)
    note r = test_noflush[OF H hz] back_noflush[OF H hz]
    show ?thesis
      using T  unfolding e cur by (simp add: readShortInt_def case_prod_beta Let_def agrees_def cmask_def r c3)
  next
    case c1
    with W have e: "out1 = out" "cb1 = cb OR 12" "ci1 = 6"
      by (simp_all add: writeShortInt_def)
    from A have H: "(C ! length out) AND 63 = cb OR 12"
      and T: "take (length out) C = out" "length out < length C"
      by (simp_all add: agrees_def e cmask_def)
    have cur: "readByte junk (s\<lparr>gpos := length out\<rparr>) = (C ! length out, s\<lparr>gpos := length out + 1\<rparr>)"
      using s T(2) by (simp add: readByte_def)
    note r = test_noflush[OF H hz] back_noflush[OF H hz]
    show ?thesis
      using T  unfolding e cur by (simp add: readShortInt_def case_prod_beta Let_def agrees_def cmask_def r c1)
  next
    case c4
    with W have e: "out1 = out" "cb1 = cb OR 28" "ci1 = 6"
      by (simp_all add: writeShortInt_def)
    from A have H: "(C ! length out) AND 63 = cb OR 28"
      and T: "take (length out) C = out" "length out < length C"
      by (simp_all add: agrees_def e cmask_def)
    have cur: "readByte junk (s\<lparr>gpos := length out\<rparr>) = (C ! length out, s\<lparr>gpos := length out + 1\<rparr>)"
      using s T(2) by (simp add: readByte_def)
    note r = test_noflush[OF H hz] back_noflush[OF H hz]
    show ?thesis
      using T  unfolding e cur by (simp add: readShortInt_def case_prod_beta Let_def agrees_def cmask_def r c4)
  next
    case c5
    with W have e: "out1 = out" "cb1 = cb OR 44" "ci1 = 6"
      by (simp_all add: writeShortInt_def)
    from A have H: "(C ! length out) AND 63 = cb OR 44"
      and T: "take (length out) C = out" "length out < length C"
      by (simp_all add: agrees_def e cmask_def)
    have cur: "readByte junk (s\<lparr>gpos := length out\<rparr>) = (C ! length out, s\<lparr>gpos := length out + 1\<rparr>)"
      using s T(2) by (simp add: readByte_def)
    note r = test_noflush[OF H hz] back_noflush[OF H hz]
    show ?thesis
      using T  unfolding e cur by (simp add: readShortInt_def case_prod_beta Let_def agrees_def cmask_def r c5)
  next
    case esc
    with W have e: "out1 = out @ [cb OR 60] @ writeInt [] v" "cb1 = 0" "ci1 = 0"
      by (simp_all add: writeShortInt_def writeByte_def writeInt_append[of "_ @ _"])
    from A have T: "take (length out1) C = out1"
      by (simp add: agrees_def)
    have L1: "length out1 \<le> length C"
      by (rule take_length[OF T])
    have L: "length out < length C"
      using L1 by (simp add: e)
    have B: "C ! length out = cb OR 60"
      using nth_of_take[OF T, of "length out"] by (simp add: e)
    have T0: "take (length out) C = out"
      by (rule take_prefix[OF T[unfolded e(1)]])
    have C: "C = (out @ [cb OR 60]) @ writeInt [] v @ drop (length out1) C"
      using take_split[OF T] by (simp add: e(1))
    let ?s1 = "s\<lparr>gpos := length (out @ [cb OR 60])\<rparr>"
    have RI: "readInt junk ?s1 = (v, ?s1\<lparr>gpos := length (out @ [cb OR 60]) + length (writeInt [] v)\<rparr>)"
      using s C by (intro readInt_writeInt[OF _ _ _ _ v0, where post = "drop (length out1) C"]) simp_all
    have RE: "readEscaped junk ?s1 =
        (v, snd (readByte junk (s\<lparr>gpos := length out1\<rparr>)), fst (readByte junk (s\<lparr>gpos := length out1\<rparr>)), 0)"
      using RI by (simp add: readEscaped_def case_prod_beta e)
    have cur: "readByte junk (s\<lparr>gpos := length out\<rparr>) = (C ! length out, s\<lparr>gpos := length out + 1\<rparr>)"
      using s L by (simp add: readByte_def)
    note r = test_flush[OF hz] back_flush[OF hz]
    show ?thesis
      using T0 L  RE esc unfolding cur
      by (simp add: readShortInt_def case_prod_beta Let_def agrees_def cmask_def e(2,3) B r)
  qed
qed

lemma step_ci4:
  assumes W: "writeShortInt out v cb 4 = Inr (out1, cb1, ci1)"
    and hz: "cb AND 15 = cb"
    and v0: "0 \<le> sint v"
    and A: "agrees C out1 cb1 ci1"
    and s: "content s = C" "\<not> eofbit s" "\<not> failbit s"
  shows "readShortInt junk (snd (readByte junk (s\<lparr>gpos := length out\<rparr>)))
           (fst (readByte junk (s\<lparr>gpos := length out\<rparr>))) 4 =
           (v, snd (readByte junk (s\<lparr>gpos := length out1\<rparr>)),
            fst (readByte junk (s\<lparr>gpos := length out1\<rparr>)), ci1)
         \<and> agrees C out cb 4"
proof -
  consider (c0) "v = 0" | (c2) "v = 2" | (c3) "v = 3" | (c1) "v = 1" | (c4) "v = 4" | (c5) "v = 5"
    | (esc) "v \<noteq> 0" "v \<noteq> 2" "v \<noteq> 3" "v \<noteq> 1" "v \<noteq> 4" "v \<noteq> 5"
    by blast
  then show ?thesis
  proof cases
    case c0
    with W have e: "out1 = out" "cb1 = cb" "ci1 = 6"
      by (simp_all add: writeShortInt_def)
    from A have H: "(C ! length out) AND 63 = cb"
      and T: "take (length out) C = out" "length out < length C"
      by (simp_all add: agrees_def e cmask_def)
    have cur: "readByte junk (s\<lparr>gpos := length out\<rparr>) = (C ! length out, s\<lparr>gpos := length out + 1\<rparr>)"
      using s T(2) by (simp add: readByte_def)
    note r = test_noflush0[OF H hz] back_noflush0[OF H hz]
    show ?thesis
      using T  unfolding e cur by (simp add: readShortInt_def case_prod_beta Let_def agrees_def cmask_def r c0)
  next
    case c2
    with W have e: "out1 = out" "cb1 = cb OR 16" "ci1 = 6"
      by (simp_all add: writeShortInt_def)
    from A have H: "(C ! length out) AND 63 = cb OR 16"
      and T: "take (length out) C = out" "length out < length C"
      by (simp_all add: agrees_def e cmask_def)
    have cur: "readByte junk (s\<lparr>gpos := length out\<rparr>) = (C ! length out, s\<lparr>gpos := length out + 1\<rparr>)"
      using s T(2) by (simp add: readByte_def)
    note r = test_noflush[OF H hz] back_noflush[OF H hz]
    show ?thesis
      using T  unfolding e cur by (simp add: readShortInt_def case_prod_beta Let_def agrees_def cmask_def r c2)
  next
    case c3
    with W have e: "out1 = out" "cb1 = cb OR 32" "ci1 = 6"
      by (simp_all add: writeShortInt_def)
    from A have H: "(C ! length out) AND 63 = cb OR 32"
      and T: "take (length out) C = out" "length out < length C"
      by (simp_all add: agrees_def e cmask_def)
    have cur: "readByte junk (s\<lparr>gpos := length out\<rparr>) = (C ! length out, s\<lparr>gpos := length out + 1\<rparr>)"
      using s T(2) by (simp add: readByte_def)
    note r = test_noflush[OF H hz] back_noflush[OF H hz]
    show ?thesis
      using T  unfolding e cur by (simp add: readShortInt_def case_prod_beta Let_def agrees_def cmask_def r c3)
  next
    case c1
    with W have e: "out1 = out @ [cb OR 48]" "cb1 = 0" "ci1 = 0"
      by (simp_all add: writeShortInt_def writeByte_def)
    from A have T: "take (length out1) C = out1"
      by (simp add: agrees_def)
    have L: "length out < length C"
      using take_length[OF T] by (simp add: e)
    have B: "C ! length out = cb OR 48"
      using nth_of_take[OF T, of "length out"] by (simp add: e)
    have T0: "take (length out) C = out"
      by (rule take_prefix[OF T[unfolded e(1)]])
    have cur: "readByte junk (s\<lparr>gpos := length out\<rparr>) = (C ! length out, s\<lparr>gpos := length out + 1\<rparr>)"
      using s L by (simp add: readByte_def)
    note r = test_flush[OF hz] test_flush0[OF hz] back_flush[OF hz]
    show ?thesis
      using T0 L  unfolding cur by (simp add: readShortInt_def case_prod_beta Let_def agrees_def cmask_def e B r c1)
  next
    case c4
    with W have e: "out1 = out @ [cb OR 112]" "cb1 = 0" "ci1 = 0"
      by (simp_all add: writeShortInt_def writeByte_def)
    from A have T: "take (length out1) C = out1"
      by (simp add: agrees_def)
    have L: "length out < length C"
      using take_length[OF T] by (simp add: e)
    have B: "C ! length out = cb OR 112"
      using nth_of_take[OF T, of "length out"] by (simp add: e)
    have T0: "take (length out) C = out"
      by (rule take_prefix[OF T[unfolded e(1)]])
    have cur: "readByte junk (s\<lparr>gpos := length out\<rparr>) = (C ! length out, s\<lparr>gpos := length out + 1\<rparr>)"
      using s L by (simp add: readByte_def)
    note r = test_flush[OF hz] test_flush0[OF hz] back_flush[OF hz]
    show ?thesis
      using T0 L  unfolding cur by (simp add: readShortInt_def case_prod_beta Let_def agrees_def cmask_def e B r c4)
  next
    case c5
    with W have e: "out1 = out @ [cb OR 176]" "cb1 = 0" "ci1 = 0"
      by (simp_all add: writeShortInt_def writeByte_def)
    from A have T: "take (length out1) C = out1"
      by (simp add: agrees_def)
    have L: "length out < length C"
      using take_length[OF T] by (simp add: e)
    have B: "C ! length out = cb OR 176"
      using nth_of_take[OF T, of "length out"] by (simp add: e)
    have T0: "take (length out) C = out"
      by (rule take_prefix[OF T[unfolded e(1)]])
    have cur: "readByte junk (s\<lparr>gpos := length out\<rparr>) = (C ! length out, s\<lparr>gpos := length out + 1\<rparr>)"
      using s L by (simp add: readByte_def)
    note r = test_flush[OF hz] test_flush0[OF hz] back_flush[OF hz]
    show ?thesis
      using T0 L  unfolding cur by (simp add: readShortInt_def case_prod_beta Let_def agrees_def cmask_def e B r c5)
  next
    case esc
    with W have e: "out1 = out @ [cb OR 240] @ writeInt [] v" "cb1 = 0" "ci1 = 0"
      by (simp_all add: writeShortInt_def writeByte_def writeInt_append[of "_ @ _"])
    from A have T: "take (length out1) C = out1"
      by (simp add: agrees_def)
    have L1: "length out1 \<le> length C"
      by (rule take_length[OF T])
    have L: "length out < length C"
      using L1 by (simp add: e)
    have B: "C ! length out = cb OR 240"
      using nth_of_take[OF T, of "length out"] by (simp add: e)
    have T0: "take (length out) C = out"
      by (rule take_prefix[OF T[unfolded e(1)]])
    have C: "C = (out @ [cb OR 240]) @ writeInt [] v @ drop (length out1) C"
      using take_split[OF T] by (simp add: e(1))
    let ?s1 = "s\<lparr>gpos := length (out @ [cb OR 240])\<rparr>"
    have RI: "readInt junk ?s1 = (v, ?s1\<lparr>gpos := length (out @ [cb OR 240]) + length (writeInt [] v)\<rparr>)"
      using s C by (intro readInt_writeInt[OF _ _ _ _ v0, where post = "drop (length out1) C"]) simp_all
    have RE: "readEscaped junk ?s1 =
        (v, snd (readByte junk (s\<lparr>gpos := length out1\<rparr>)), fst (readByte junk (s\<lparr>gpos := length out1\<rparr>)), 0)"
      using RI by (simp add: readEscaped_def case_prod_beta e)
    have cur: "readByte junk (s\<lparr>gpos := length out\<rparr>) = (C ! length out, s\<lparr>gpos := length out + 1\<rparr>)"
      using s L by (simp add: readByte_def)
    note r = test_flush[OF hz] back_flush[OF hz]
    show ?thesis
      using T0 L  RE esc unfolding cur
      by (simp add: readShortInt_def case_prod_beta Let_def agrees_def cmask_def e(2,3) B r)
  qed
qed

lemma step_ci6:
  assumes W: "writeShortInt out v cb 6 = Inr (out1, cb1, ci1)"
    and hz: "cb AND 63 = cb"
    and v0: "0 \<le> sint v"
    and A: "agrees C out1 cb1 ci1"
    and s: "content s = C" "\<not> eofbit s" "\<not> failbit s"
  shows "readShortInt junk (snd (readByte junk (s\<lparr>gpos := length out\<rparr>)))
           (fst (readByte junk (s\<lparr>gpos := length out\<rparr>))) 6 =
           (v, snd (readByte junk (s\<lparr>gpos := length out1\<rparr>)),
            fst (readByte junk (s\<lparr>gpos := length out1\<rparr>)), ci1)
         \<and> agrees C out cb 6"
proof -
  consider (c0) "v = 0" | (c2) "v = 2" | (c3) "v = 3" | (c1) "v = 1" | (c4) "v = 4" | (c5) "v = 5"
    | (esc) "v \<noteq> 0" "v \<noteq> 2" "v \<noteq> 3" "v \<noteq> 1" "v \<noteq> 4" "v \<noteq> 5"
    by blast
  then show ?thesis
  proof cases
    case c0
    with W have e: "out1 = out @ [cb]" "cb1 = 0" "ci1 = 0"
      by (simp_all add: writeShortInt_def writeByte_def)
    from A have T: "take (length out1) C = out1"
      by (simp add: agrees_def)
    have L: "length out < length C"
      using take_length[OF T] by (simp add: e)
    have B: "C ! length out = cb"
      using nth_of_take[OF T, of "length out"] by (simp add: e)
    have T0: "take (length out) C = out"
      by (rule take_prefix[OF T[unfolded e(1)]])
    have cur: "readByte junk (s\<lparr>gpos := length out\<rparr>) = (C ! length out, s\<lparr>gpos := length out + 1\<rparr>)"
      using s L by (simp add: readByte_def)
    note r = test_flush[OF hz] test_flush0[OF hz] back_flush[OF hz]
    show ?thesis
      using T0 L  unfolding cur by (simp add: readShortInt_def case_prod_beta Let_def agrees_def cmask_def e B r c0) (rule hz)
  next
    case c2
    with W have e: "out1 = out @ [cb OR 64]" "cb1 = 0" "ci1 = 0"
      by (simp_all add: writeShortInt_def writeByte_def)
    from A have T: "take (length out1) C = out1"
      by (simp add: agrees_def)
    have L: "length out < length C"
      using take_length[OF T] by (simp add: e)
    have B: "C ! length out = cb OR 64"
      using nth_of_take[OF T, of "length out"] by (simp add: e)
    have T0: "take (length out) C = out"
      by (rule take_prefix[OF T[unfolded e(1)]])
    have cur: "readByte junk (s\<lparr>gpos := length out\<rparr>) = (C ! length out, s\<lparr>gpos := length out + 1\<rparr>)"
      using s L by (simp add: readByte_def)
    note r = test_flush[OF hz] test_flush0[OF hz] back_flush[OF hz]
    show ?thesis
      using T0 L  unfolding cur by (simp add: readShortInt_def case_prod_beta Let_def agrees_def cmask_def e B r c2)
  next
    case c3
    with W have e: "out1 = out @ [cb OR 128]" "cb1 = 0" "ci1 = 0"
      by (simp_all add: writeShortInt_def writeByte_def)
    from A have T: "take (length out1) C = out1"
      by (simp add: agrees_def)
    have L: "length out < length C"
      using take_length[OF T] by (simp add: e)
    have B: "C ! length out = cb OR 128"
      using nth_of_take[OF T, of "length out"] by (simp add: e)
    have T0: "take (length out) C = out"
      by (rule take_prefix[OF T[unfolded e(1)]])
    have cur: "readByte junk (s\<lparr>gpos := length out\<rparr>) = (C ! length out, s\<lparr>gpos := length out + 1\<rparr>)"
      using s L by (simp add: readByte_def)
    note r = test_flush[OF hz] test_flush0[OF hz] back_flush[OF hz]
    show ?thesis
      using T0 L  unfolding cur by (simp add: readShortInt_def case_prod_beta Let_def agrees_def cmask_def e B r c3)
  next
    case c1
    with W have e: "out1 = out @ [cb OR 192]" "cb1 = 0" "ci1 = 2"
      by (simp_all add: writeShortInt_def writeByte_def)
    from A have T: "take (length out1) C = out1" and L1: "length out1 < length C"
      and H: "(C ! length out1) AND 3 = 0"
      by (simp_all add: agrees_def cmask_def e)
    have L: "length out < length C"
      using L1 by (simp add: e)
    have B: "C ! length out = cb OR 192"
      using nth_of_take[OF T, of "length out"] by (simp add: e)
    have T0: "take (length out) C = out"
      by (rule take_prefix[OF T[unfolded e(1)]])
    have H': "(C ! Suc (length out)) AND 3 = 0"
      using H by (simp add: e)
    have cur: "readByte junk (s\<lparr>gpos := length out\<rparr>) = (C ! length out, s\<lparr>gpos := length out + 1\<rparr>)"
      using s L by (simp add: readByte_def)
    have nxt: "readByte junk (s\<lparr>gpos := Suc (length out)\<rparr>) = (C ! Suc (length out), s\<lparr>gpos := Suc (Suc (length out))\<rparr>)"
      using s L1 by (simp add: readByte_def e)
    note r = test_flush[OF hz] back_flush[OF hz]
    show ?thesis
      using T0 L  unfolding cur by (simp add: readShortInt_def case_prod_beta Let_def agrees_def cmask_def e B H' nxt r c1)
  next
    case c4
    with W have e: "out1 = out @ [cb OR 192]" "cb1 = 1" "ci1 = 2"
      by (simp_all add: writeShortInt_def writeByte_def)
    from A have T: "take (length out1) C = out1" and L1: "length out1 < length C"
      and H: "(C ! length out1) AND 3 = 1"
      by (simp_all add: agrees_def cmask_def e)
    have L: "length out < length C"
      using L1 by (simp add: e)
    have B: "C ! length out = cb OR 192"
      using nth_of_take[OF T, of "length out"] by (simp add: e)
    have T0: "take (length out) C = out"
      by (rule take_prefix[OF T[unfolded e(1)]])
    have H': "(C ! Suc (length out)) AND 3 = 1"
      using H by (simp add: e)
    have cur: "readByte junk (s\<lparr>gpos := length out\<rparr>) = (C ! length out, s\<lparr>gpos := length out + 1\<rparr>)"
      using s L by (simp add: readByte_def)
    have nxt: "readByte junk (s\<lparr>gpos := Suc (length out)\<rparr>) = (C ! Suc (length out), s\<lparr>gpos := Suc (Suc (length out))\<rparr>)"
      using s L1 by (simp add: readByte_def e)
    note r = test_flush[OF hz] back_flush[OF hz]
    show ?thesis
      using T0 L  unfolding cur by (simp add: readShortInt_def case_prod_beta Let_def agrees_def cmask_def e B H' nxt r c4)
  next
    case c5
    with W have e: "out1 = out @ [cb OR 192]" "cb1 = 2" "ci1 = 2"
      by (simp_all add: writeShortInt_def writeByte_def)
    from A have T: "take (length out1) C = out1" and L1: "length out1 < length C"
      and H: "(C ! length out1) AND 3 = 2"
      by (simp_all add: agrees_def cmask_def e)
    have L: "length out < length C"
      using L1 by (simp add: e)
    have B: "C ! length out = cb OR 192"
      using nth_of_take[OF T, of "length out"] by (simp add: e)
    have T0: "take (length out) C = out"
      by (rule take_prefix[OF T[unfolded e(1)]])
    have H': "(C ! Suc (length out)) AND 3 = 2"
      using H by (simp add: e)
    have cur: "readByte junk (s\<lparr>gpos := length out\<rparr>) = (C ! length out, s\<lparr>gpos := length out + 1\<rparr>)"
      using s L by (simp add: readByte_def)
    have nxt: "readByte junk (s\<lparr>gpos := Suc (length out)\<rparr>) = (C ! Suc (length out), s\<lparr>gpos := Suc (Suc (length out))\<rparr>)"
      using s L1 by (simp add: readByte_def e)
    note r = test_flush[OF hz] back_flush[OF hz]
    show ?thesis
      using T0 L  unfolding cur by (simp add: readShortInt_def case_prod_beta Let_def agrees_def cmask_def e B H' nxt r c5)
  next
    case esc
    with W have e: "out1 = out @ [cb OR 192, 3] @ writeInt [] v" "cb1 = 0" "ci1 = 0"
      by (simp_all add: writeShortInt_def writeByte_def writeInt_append[of "_ @ _"])
    from A have T: "take (length out1) C = out1"
      by (simp add: agrees_def)
    have L1: "length out1 \<le> length C"
      by (rule take_length[OF T])
    have L: "length out < length C"
      using L1 by (simp add: e)
    have B: "C ! length out = cb OR 192"
      using nth_of_take[OF T, of "length out"] by (simp add: e)
    have B1: "C ! Suc (length out) = 3"
      using nth_of_take[OF T, of "Suc (length out)"] by (simp add: e nth_append)
    have T0: "take (length out) C = out"
      by (rule take_prefix[OF T[unfolded e(1)]])
    have C: "C = (out @ [cb OR 192, 3]) @ writeInt [] v @ drop (length out1) C"
      using take_split[OF T] by (simp add: e(1))
    let ?s1 = "s\<lparr>gpos := length (out @ [cb OR 192, 3])\<rparr>"
    have RI: "readInt junk ?s1 = (v, ?s1\<lparr>gpos := length (out @ [cb OR 192, 3]) + length (writeInt [] v)\<rparr>)"
      using s C by (intro readInt_writeInt[OF _ _ _ _ v0, where post = "drop (length out1) C"]) simp_all
    have RE: "readEscaped junk ?s1 =
        (v, snd (readByte junk (s\<lparr>gpos := length out1\<rparr>)), fst (readByte junk (s\<lparr>gpos := length out1\<rparr>)), 0)"
      using RI by (simp add: readEscaped_def case_prod_beta e)
    have cur: "readByte junk (s\<lparr>gpos := length out\<rparr>) = (C ! length out, s\<lparr>gpos := length out + 1\<rparr>)"
      using s L by (simp add: readByte_def)
    note r = test_flush[OF hz] back_flush[OF hz]
    have nxt: "readByte junk (s\<lparr>gpos := Suc (length out)\<rparr>) = (3, ?s1)"
      using s L1 B1 by (simp add: readByte_def e)
    show ?thesis
      using T0 L  RE esc unfolding cur
      by (simp add: readShortInt_def case_prod_beta Let_def agrees_def cmask_def e(2,3) B nxt r)
  qed
qed

definition cursor_ok :: "nat \<Rightarrow> bool" where
  "cursor_ok ci = (ci = 0 \<or> ci = 2 \<or> ci = 4 \<or> ci = 6)"

lemma and_grow:
  fixes cb m m1 :: byte
  assumes "cb AND m = cb" "m AND m1 = m"
  shows "cb AND m1 = cb"
proof -
  have "cb AND m1 = (cb AND m) AND m1" by (simp only: assms(1))
  also have "\<dots> = cb AND (m AND m1)" by (simp only: and.assoc)
  also have "\<dots> = cb" by (simp only: assms)
  finally show ?thesis .
qed

lemma writer_inv:
  assumes W: "writeShortInt out v cb ci = Inr (out1, cb1, ci1)"
    and ci: "cursor_ok ci" and hz: "cb AND cmask ci = cb"
  shows "cursor_ok ci1 \<and> cb1 AND cmask ci1 = cb1"
proof -
  consider "ci = 0" | "ci = 2" | "ci = 4" | "ci = 6" using ci unfolding cursor_ok_def by blast
  then show ?thesis
  proof cases
    case 1
    then have "cb = 0" using hz by (simp add: cmask_def)
    then show ?thesis using W 1
      by (auto simp: writeShortInt_def cmask_def cursor_ok_def split: if_splits)
  next
    case 2
    then have h: "cb AND 3 = cb" using hz by (simp add: cmask_def)
    note g = and_grow[OF h]
    show ?thesis
    proof (cases "v = 0")
      case True
      with W 2 have "cb1 = cb" "ci1 = 4" by (simp_all add: writeShortInt_def)
      then show ?thesis by (simp add: cursor_ok_def cmask_def g)
    next
      case False
      then show ?thesis using W 2
        by (auto simp: writeShortInt_def cmask_def cursor_ok_def bit.conj_disj_distrib2 g
            split: if_splits)
    qed
  next
    case 3
    then have h: "cb AND 15 = cb" using hz by (simp add: cmask_def)
    note g = and_grow[OF h]
    show ?thesis
    proof (cases "v = 0")
      case True
      with W 3 have "cb1 = cb" "ci1 = 6" by (simp_all add: writeShortInt_def)
      then show ?thesis by (simp add: cursor_ok_def cmask_def g)
    next
      case False
      then show ?thesis using W 3
        by (auto simp: writeShortInt_def cmask_def cursor_ok_def bit.conj_disj_distrib2 g
            split: if_splits)
    qed
  next
    case 4
    then have h: "cb AND 63 = cb" using hz by (simp add: cmask_def)
    note g = and_grow[OF h]
    show ?thesis
    proof (cases "v = 0")
      case True
      with W 4 have "cb1 = 0" "ci1 = 0" by (simp_all add: writeShortInt_def)
      then show ?thesis by (simp add: cursor_ok_def cmask_def g)
    next
      case False
      then show ?thesis using W 4
        by (auto simp: writeShortInt_def cmask_def cursor_ok_def bit.conj_disj_distrib2 g
            split: if_splits)
    qed
  qed
qed

lemma writer_total:
  assumes "cursor_ok ci"
  shows "\<exists>w cb1 ci1. writeShortInt out v cb ci = Inr (out @ w, cb1, ci1)"
  using assms
  by (auto simp: cursor_ok_def writeShortInt_def writeByte_def writeInt_append[of "_ @ _"])

lemma step:
  assumes W: "writeShortInt out v cb ci = Inr (out1, cb1, ci1)"
    and ci: "cursor_ok ci" and hz: "cb AND cmask ci = cb"
    and v0: "0 \<le> sint v"
    and A: "agrees C out1 cb1 ci1"
    and s: "content s = C" "\<not> eofbit s" "\<not> failbit s"
  shows "readShortInt junk (snd (readByte junk (s\<lparr>gpos := length out\<rparr>)))
           (fst (readByte junk (s\<lparr>gpos := length out\<rparr>))) ci =
           (v, snd (readByte junk (s\<lparr>gpos := length out1\<rparr>)),
            fst (readByte junk (s\<lparr>gpos := length out1\<rparr>)), ci1)
         \<and> agrees C out cb ci"
proof -
  consider "ci = 0" | "ci = 2" | "ci = 4" | "ci = 6" using ci unfolding cursor_ok_def by blast
  then show ?thesis
  proof cases
    case 1
    have h: "cb AND 0 = cb" using hz by (simp add: 1 cmask_def)
    show ?thesis using step_ci0[OF W[unfolded 1] h v0 A s]
      unfolding 1 .
  next
    case 2
    have h: "cb AND 3 = cb" using hz by (simp add: 2 cmask_def)
    show ?thesis using step_ci2[OF W[unfolded 2] h v0 A s]
      unfolding 2 .
  next
    case 3
    have h: "cb AND 15 = cb" using hz by (simp add: 3 cmask_def)
    show ?thesis using step_ci4[OF W[unfolded 3] h v0 A s]
      unfolding 3 .
  next
    case 4
    have h: "cb AND 63 = cb" using hz by (simp add: 4 cmask_def)
    show ?thesis using step_ci6[OF W[unfolded 4] h v0 A s]
      unfolding 4 .
  qed
qed

lemma readShortInts_writeShortInts:
  assumes "writeShortInts out vs cb ci = Inr (outN, cbN, ciN)"
    and "cursor_ok ci" and "cb AND cmask ci = cb"
    and "\<forall>v\<in>set vs. 0 \<le> sint v"
    and "agrees C outN cbN ciN"
    and "content s = C" "\<not> eofbit s" "\<not> failbit s"
  shows "readShortInts junk (length vs) (snd (readByte junk (s\<lparr>gpos := length out\<rparr>)))
           (fst (readByte junk (s\<lparr>gpos := length out\<rparr>))) ci =
           (vs, snd (readByte junk (s\<lparr>gpos := length outN\<rparr>)),
            fst (readByte junk (s\<lparr>gpos := length outN\<rparr>)), ciN)
         \<and> agrees C out cb ci"
  using assms
proof (induction vs arbitrary: out cb ci)
  case Nil
  then show ?case by simp
next
  case (Cons v vs)
  from Cons.prems(1) obtain out1 cb1 ci1 where
    W: "writeShortInt out v cb ci = Inr (out1, cb1, ci1)"
    and Ws: "writeShortInts out1 vs cb1 ci1 = Inr (outN, cbN, ciN)"
    by (auto split: sum.splits)
  from writer_inv[OF W Cons.prems(2,3)] have inv: "cursor_ok ci1" "cb1 AND cmask ci1 = cb1"
    by simp_all
  have nn: "\<forall>v\<in>set vs. 0 \<le> sint v" and v0: "0 \<le> sint v"
    using Cons.prems(4) by simp_all
  note IH = Cons.IH[OF Ws inv nn Cons.prems(5-8)]
  note S = step[OF W Cons.prems(2,3) v0 conjunct2[OF IH] Cons.prems(6-8), of junk]
  show ?case
    using conjunct1[OF S] conjunct1[OF IH] conjunct2[OF S] by simp
qed

lemma writeShortInts_total:
  assumes "cursor_ok ci" "cb AND cmask ci = cb"
  shows "\<exists>w cbN ciN. writeShortInts out vs cb ci = Inr (out @ w, cbN, ciN)
           \<and> cursor_ok ciN \<and> cbN AND cmask ciN = cbN"
  using assms
proof (induction vs arbitrary: out cb ci)
  case Nil
  then show ?case by simp
next
  case (Cons v vs)
  from writer_total[OF Cons.prems(1)] obtain w cb1 ci1 where
    W: "writeShortInt out v cb ci = Inr (out @ w, cb1, ci1)" by blast
  from writer_inv[OF W Cons.prems] have inv: "cursor_ok ci1" "cb1 AND cmask ci1 = cb1"
    by simp_all
  from Cons.IH[OF inv, of "out @ w"] obtain w' cbN ciN where
    "writeShortInts (out @ w) vs cb1 ci1 = Inr ((out @ w) @ w', cbN, ciN)"
    "cursor_ok ciN" "cbN AND cmask ciN = cbN" by blast
  then show ?case using W by auto
qed


text \<open>
  C2 (amended). For every sequence of child counts (non-negative 32-bit integers)
  written with \<open>writeShortInt\<close> after any prefix \<open>pre\<close> and flushed as
  \<open>writeBinaryTree\<close> does, whatever follows in the file (\<open>rest\<close>, possibly nothing) and
  whatever a failed read leaves in the buffer (\<open>junk\<close>):
  \<^item> the writer succeeds and appends some bytes, and the reader returns exactly the
    counts, with the cursor the writer ended on;
  \<^item> when at least one byte follows the bytes written, the reader stands one byte past
    them after the last value exactly when its cursor is 0, and after the seek of
    \<open>readBinaryTree\<close> the bytes consumed are the bytes written, on a good stream;
  \<^item> when nothing follows and the cursor is 0, the byte read ahead was not there: the
    stream has failed and the seek leaves its position where it was.
\<close>

theorem shortint_roundtrip:
  assumes nn: "\<forall>v\<in>set counts. 0 \<le> sint v"
  shows "\<exists>bytes s2 b2 ci.
           writeChildCounts pre counts = Inr (pre @ bytes)
         \<and> readShortInts junk (length counts)
               (snd (readByte junk (openFile (pre @ bytes @ rest)\<lparr>gpos := length pre\<rparr>)))
               (fst (readByte junk (openFile (pre @ bytes @ rest)\<lparr>gpos := length pre\<rparr>))) 0
             = (counts, s2, b2, ci)
         \<and> fst (readChildCounts junk (length counts)
                  (openFile (pre @ bytes @ rest)\<lparr>gpos := length pre\<rparr>)) = counts
         \<and> (rest \<noteq> [] \<longrightarrow>
               gpos s2 = length pre + length bytes + (if ci = 0 then 1 else 0)
             \<and> snd (readChildCounts junk (length counts)
                      (openFile (pre @ bytes @ rest)\<lparr>gpos := length pre\<rparr>))
                 = openFile (pre @ bytes @ rest)\<lparr>gpos := length pre + length bytes\<rparr>)
         \<and> (rest = [] \<and> ci = 0 \<longrightarrow>
               failbit s2 \<and> gpos (seekg_cur s2 (- 1)) = gpos s2
             \<and> snd (readChildCounts junk (length counts)
                      (openFile (pre @ bytes @ rest)\<lparr>gpos := length pre\<rparr>))
                 = openFile (pre @ bytes @ rest)\<lparr>gpos := length pre + length bytes, failbit := True\<rparr>)"
proof -
  have c0: "cursor_ok 0" "(0 :: byte) AND cmask 0 = 0" by (simp_all add: cursor_ok_def)
  from writeShortInts_total[OF c0, of pre counts] obtain w cbN ciN where
    W: "writeShortInts pre counts 0 0 = Inr (pre @ w, cbN, ciN)"
    and ok: "cursor_ok ciN" and inv: "cbN AND cmask ciN = cbN" by blast
  define bytes where "bytes = (if ciN \<noteq> 0 then w @ [cbN] else w)"
  define C where "C = pre @ bytes @ rest"
  define s where "s = openFile C"
  define s2 where "s2 = snd (readByte junk (s\<lparr>gpos := length (pre @ w)\<rparr>))"
  define b2 where "b2 = fst (readByte junk (s\<lparr>gpos := length (pre @ w)\<rparr>))"
  have sp: "content s = C" "\<not> eofbit s" "\<not> failbit s"
    by (simp_all add: s_def openFile_def)
  have wc: "writeChildCounts pre counts = Inr (pre @ bytes)"
    using W by (simp add: writeChildCounts_def bytes_def writeByte_def)
  have ag: "agrees C (pre @ w) cbN ciN"
  proof (cases "ciN = 0")
    case True
    then have "cbN = 0" using inv by (simp add: cmask_def)
    then show ?thesis using True by (simp add: agrees_def C_def bytes_def)
  next
    case False
    then show ?thesis using inv
      by (simp add: agrees_def C_def bytes_def nth_append)
  qed
  from conjunct1[OF readShortInts_writeShortInts[OF W c0 nn ag sp, of junk]]
  have rs: "readShortInts junk (length counts) (snd (readByte junk (s\<lparr>gpos := length pre\<rparr>)))
              (fst (readByte junk (s\<lparr>gpos := length pre\<rparr>))) 0 = (counts, s2, b2, ciN)"
    by (simp add: s2_def b2_def)
  have rc: "readChildCounts junk (length counts) (s\<lparr>gpos := length pre\<rparr>)
              = (counts, if ciN = 0 then seekg_cur s2 (- 1) else s2)"
    using rs by (simp add: readChildCounts_def case_prod_beta)
  have p1: "rest \<noteq> [] \<longrightarrow>
               gpos s2 = length pre + length bytes + (if ciN = 0 then 1 else 0)
             \<and> (if ciN = 0 then seekg_cur s2 (- 1) else s2) = s\<lparr>gpos := length pre + length bytes\<rparr>"
    by (simp add: s2_def s_def C_def openFile_def readByte_def seekg_cur_def seekg_to_def bytes_def
        flip: of_nat_add)
  have p2: "rest = [] \<and> ciN = 0 \<longrightarrow>
               failbit s2 \<and> gpos (seekg_cur s2 (- 1)) = gpos s2
             \<and> (if ciN = 0 then seekg_cur s2 (- 1) else s2)
                 = s\<lparr>gpos := length pre + length bytes, failbit := True\<rparr>"
    by (simp add: s2_def s_def C_def openFile_def readByte_def seekg_cur_def seekg_to_def bytes_def)
  have f3: "fst (readChildCounts junk (length counts) (s\<lparr>gpos := length pre\<rparr>)) = counts"
    using rc by simp
  have f4: "rest \<noteq> [] \<longrightarrow>
               gpos s2 = length pre + length bytes + (if ciN = 0 then 1 else 0)
             \<and> snd (readChildCounts junk (length counts) (s\<lparr>gpos := length pre\<rparr>))
                 = s\<lparr>gpos := length pre + length bytes\<rparr>"
    using p1 by (simp only: rc snd_conv) 
  have f5: "rest = [] \<and> ciN = 0 \<longrightarrow>
               failbit s2 \<and> gpos (seekg_cur s2 (- 1)) = gpos s2
             \<and> snd (readChildCounts junk (length counts) (s\<lparr>gpos := length pre\<rparr>))
                 = s\<lparr>gpos := length pre + length bytes, failbit := True\<rparr>"
    using p2 by (simp only: rc snd_conv)
  show ?thesis
    using wc rs f3 f4 f5 unfolding s_def C_def by blast
qed

text \<open>
  The counts 0, 1, 2, 3, 4, 5, 6, 1000 of the specification, followed by one more byte:
  the last value is escaped, the cursor ends on 0 and the reader goes back from
  position 11 to position 10, the number of bytes written.
\<close>

theorem shortint_roundtrip_witness:
  "writeChildCounts [] [0, 1, 2, 3, 4, 5, 6, 1000] = Inr [0x4C, 0xDE, 0x3E, 6, 0x0F, 254, 0xE8, 3, 0, 0]
   \<and> readChildCounts 0 8 (openFile ([0x4C, 0xDE, 0x3E, 6, 0x0F, 254, 0xE8, 3, 0, 0] @ [7]))
       = ([0, 1, 2, 3, 4, 5, 6, 1000],
          openFile ([0x4C, 0xDE, 0x3E, 6, 0x0F, 254, 0xE8, 3, 0, 0] @ [7])\<lparr>gpos := 10\<rparr>)"
proof -
  let ?L = "[0, 1, 2, 3, 4, 5, 6, 1000 :: int32]"
  let ?B = "[0x4C, 0xDE, 0x3E, 6, 0x0F, 254, 0xE8, 3, 0, 0 :: byte]"
  have w: "writeChildCounts [] ?L = Inr ?B"
    by (simp add: writeChildCounts_def writeShortInt_def writeByte_def writeInt_def
        writeInt32_def writeBytes_def)
  have nn: "\<forall>v\<in>set ?L. 0 \<le> sint v" by simp
  from shortint_roundtrip[OF nn, of "[]" 0 "[7]"] obtain bytes where
    a: "writeChildCounts [] ?L = Inr ([] @ bytes)"
    and b: "fst (readChildCounts 0 (length ?L) (openFile ([] @ bytes @ [7])\<lparr>gpos := length ([] :: byte list)\<rparr>)) = ?L"
    and c: "snd (readChildCounts 0 (length ?L) (openFile ([] @ bytes @ [7])\<lparr>gpos := length ([] :: byte list)\<rparr>))
            = openFile ([] @ bytes @ [7])\<lparr>gpos := length ([] :: byte list) + length bytes\<rparr>"
    by blast
  from a w have bs: "bytes = ?B" by simp
  have l: "length ?L = 8" "length ?B = 10" by simp_all
  have o: "openFile (?B @ [7])\<lparr>gpos := 0\<rparr> = openFile (?B @ [7])" by (simp add: openFile_def)
  from b c have "readChildCounts 0 8 (openFile (?B @ [7]))
       = (?L, openFile (?B @ [7])\<lparr>gpos := 10\<rparr>)"
    unfolding bs l append_Nil list.size(3) add_0 o by (intro prod_eqI) simp_all
  with w show ?thesis by simp
qed

text \<open>
  The same counts read back from exactly the bytes written. All eight values come back
  and the cursor is 0, but the byte read ahead after the last value does not exist: the
  stream has failed at position 10, and the seek of \<open>readBinaryTree\<close> moves nothing (it
  only clears \<open>eofbit\<close>). The reader does not go back by one byte there.
\<close>

theorem shortint_rewind_counterexample:
  "writeChildCounts [] [0, 1, 2, 3, 4, 5, 6, 1000] = Inr [0x4C, 0xDE, 0x3E, 6, 0x0F, 254, 0xE8, 3, 0, 0]
   \<and> readShortInts 0 8
         (snd (readByte 0 (openFile [0x4C, 0xDE, 0x3E, 6, 0x0F, 254, 0xE8, 3, 0, 0])))
         (fst (readByte 0 (openFile [0x4C, 0xDE, 0x3E, 6, 0x0F, 254, 0xE8, 3, 0, 0]))) 0
       = ([0, 1, 2, 3, 4, 5, 6, 1000],
          \<lparr>content = [0x4C, 0xDE, 0x3E, 6, 0x0F, 254, 0xE8, 3, 0, 0], gpos = 10,
             eofbit = True, failbit = True\<rparr>, 0, 0)
   \<and> seekg_cur \<lparr>content = [0x4C, 0xDE, 0x3E, 6, 0x0F, 254, 0xE8, 3, 0, 0 :: byte], gpos = 10,
                  eofbit = True, failbit = True\<rparr> (- 1)
       = \<lparr>content = [0x4C, 0xDE, 0x3E, 6, 0x0F, 254, 0xE8, 3, 0, 0], gpos = 10,
            eofbit = False, failbit = True\<rparr>"
proof -
  have w: "writeChildCounts [] [0, 1, 2, 3, 4, 5, 6, 1000] = Inr [0x4C, 0xDE, 0x3E, 6, 0x0F, 254, 0xE8, 3, 0, 0]"
    by (simp add: writeChildCounts_def writeShortInt_def writeByte_def writeInt_def
        writeInt32_def writeBytes_def)
  have r: "readShortInts 0 8
         (snd (readByte 0 (openFile [0x4C, 0xDE, 0x3E, 6, 0x0F, 254, 0xE8, 3, 0, 0])))
         (fst (readByte 0 (openFile [0x4C, 0xDE, 0x3E, 6, 0x0F, 254, 0xE8, 3, 0, 0]))) 0
       = ([0, 1, 2, 3, 4, 5, 6, 1000],
          \<lparr>content = [0x4C, 0xDE, 0x3E, 6, 0x0F, 254, 0xE8, 3, 0, 0], gpos = 10,
             eofbit = True, failbit = True\<rparr>, 0, 0)"
    by code_simp
  have k: "seekg_cur \<lparr>content = [0x4C, 0xDE, 0x3E, 6, 0x0F, 254, 0xE8, 3, 0, 0 :: byte], gpos = 10,
                  eofbit = True, failbit = True\<rparr> (- 1)
       = \<lparr>content = [0x4C, 0xDE, 0x3E, 6, 0x0F, 254, 0xE8, 3, 0, 0], gpos = 10,
            eofbit = False, failbit = True\<rparr>"
    by (simp add: seekg_cur_def seekg_to_def)
  show ?thesis using w r k by blast
qed

section \<open>Verification: the header of a file of trees\<close>

lemma list4_nth: "length xs = 4 \<Longrightarrow> (xs = [a, b, c, d]) = (xs ! 0 = a \<and> xs ! 1 = b \<and> xs ! 2 = c \<and> xs ! 3 = d)"
  by (cases xs; simp; cases "tl xs"; simp; cases "tl (tl xs)"; simp; cases "tl (tl (tl xs))"; simp)

lemma readBytes_open_long:
  "n \<le> length bs \<Longrightarrow> readBytes (openFile bs) n = (take n bs, (openFile bs)\<lparr>gpos := n\<rparr>)"
  by (simp add: readBytes_def openFile_def)

lemma readBytes_open_short:
  "length bs < 4 \<Longrightarrow> fst (readBytes (openFile bs) 4) ! 3 = 0"
  by (simp add: readBytes_def openFile_def nth_append Let_def)

lemma header_mismatch:
  assumes "take 4 bs \<noteq> [0x23, 0x54, 0x52, 0x45]"
  shows "fst (readBytes (openFile bs) 4) ! 0 \<noteq> 0x23 \<or> fst (readBytes (openFile bs) 4) ! 1 \<noteq> 0x54
       \<or> fst (readBytes (openFile bs) 4) ! 2 \<noteq> 0x52 \<or> fst (readBytes (openFile bs) 4) ! 3 \<noteq> 0x45"
proof (cases "4 \<le> length bs")
  case True
  then have l: "length (take 4 bs) = 4" by simp
  from assms list4_nth[OF l] show ?thesis
    by (simp only: readBytes_open_long[OF True] fst_conv) blast
next
  case False
  then have "fst (readBytes (openFile bs) 4) ! 3 = 0" by (simp add: readBytes_open_short)
  then show ?thesis by simp
qed

lemma readByte_at_open:
  "n < length bs \<Longrightarrow> readByte junk ((openFile bs)\<lparr>gpos := n\<rparr>) = (bs ! n, (openFile bs)\<lparr>gpos := Suc n\<rparr>)"
  by (simp add: readByte_def openFile_def)

text \<open>
  C8. \<open>readBinaryTrees\<close> on a file whose first four bytes are not 23 54 52 45 (a file
  of fewer than four bytes included), or whose header byte, the fifth byte, has one of
  the bits 2 to 7 set, ends with the fatal error \<open>Invalid file header!\<close>: the result is
  the error and no tree, whatever the rest of the file holds.
\<close>

theorem invalid_header_aborts:
  assumes "take 4 bs \<noteq> [0x23, 0x54, 0x52, 0x45] \<or> (4 < length bs \<and> (bs ! 4) AND 0xfc \<noteq> 0)"
  shows "readBinaryTrees junk junkd to_string (openFile bs) = Some (Inl (Stop ''Invalid file header!''))"
proof (cases "take 4 bs \<noteq> [0x23, 0x54, 0x52, 0x45]")
  case True
  from header_mismatch[OF True] show ?thesis
    by (simp add: readBinaryTrees_def case_prod_beta Let_def)
next
  case False
  with assms have l: "4 < length bs" and r: "(bs ! 4) AND 0xfc \<noteq> 0" by blast+
  from l have l4: "4 \<le> length bs" by simp
  from r show ?thesis
    by (simp add: readBinaryTrees_def readBytes_open_long[OF l4] readByte_at_open[OF l] Let_def)
qed


section \<open>Verification: reading without a trailer\<close>








text \<open>A file with bit 2 of the header byte set, and a file with a wrong fourth byte.\<close>

theorem invalid_header_aborts_witness:
  "readBinaryTrees 0 0 (\<lambda>d. []) (openFile [0x23, 0x54, 0x52, 0x45, 0x04, 0, 0, 0])
     = Some (Inl (Stop ''Invalid file header!''))
   \<and> readBinaryTrees 0 0 (\<lambda>d. []) (openFile [0x23, 0x54, 0x52, 0x44, 0x00, 0, 0, 0])
     = Some (Inl (Stop ''Invalid file header!''))"
proof -
  have a: "take 4 [0x23, 0x54, 0x52, 0x45, 0x04, 0, 0, 0 :: byte] \<noteq> [0x23, 0x54, 0x52, 0x45]
        \<or> (4 < length [0x23, 0x54, 0x52, 0x45, 0x04, 0, 0, 0 :: byte]
            \<and> ([0x23, 0x54, 0x52, 0x45, 0x04, 0, 0, 0 :: byte] ! 4) AND 0xfc \<noteq> 0)"
    by simp
  have b: "take 4 [0x23, 0x54, 0x52, 0x44, 0x00, 0, 0, 0 :: byte] \<noteq> [0x23, 0x54, 0x52, 0x45]
        \<or> (4 < length [0x23, 0x54, 0x52, 0x44, 0x00, 0, 0, 0 :: byte]
            \<and> ([0x23, 0x54, 0x52, 0x44, 0x00, 0, 0, 0 :: byte] ! 4) AND 0xfc \<noteq> 0)"
    by simp
  from invalid_header_aborts[OF a, of 0 0 "\<lambda>d. []"] invalid_header_aborts[OF b, of 0 0 "\<lambda>d. []"]
  show ?thesis by blast
qed



section \<open>Verification: the choice between shared and per-tree tables\<close>

lemma map_insert_names:
  "map_insert (=) n v lk = (lk1, ins) \<Longrightarrow> distinct (map fst lk)
   \<Longrightarrow> distinct (map fst lk1) \<and> set (map fst lk1) = insert n (set (map fst lk))"
  by (auto simp: map_insert_def list_ex_iff split: if_splits)

lemma addNames_inv:
  "addNames ns (c, lk, rv) = (c1, lk1, rv1) \<Longrightarrow> distinct (map fst lk)
   \<Longrightarrow> distinct (map fst lk1)
     \<and> set (map fst lk1) = set (map fst lk) \<union> set (filter (\<lambda>n. n \<noteq> []) ns)
     \<and> c1 = c + length (filter (\<lambda>n. n \<noteq> []) ns)"
proof (induction ns arbitrary: c lk rv)
  case Nil
  then show ?case by simp
next
  case (Cons n ns)
  show ?case
  proof (cases "n = []")
    case True
    with Cons.prems have "addNames ns (c, lk, rv) = (c1, lk1, rv1)" by simp
    from Cons.IH[OF this Cons.prems(2)] True show ?thesis by simp
  next
    case False
    obtain lk2 ins where mi: "map_insert (=) n (length lk) lk = (lk2, ins)"
      by (cases "map_insert (=) n (length lk) lk") blast
    from map_insert_names[OF mi Cons.prems(2)] have
      d2: "distinct (map fst lk2)" and s2: "set (map fst lk2) = insert n (set (map fst lk))"
      by simp_all
    from Cons.prems(1) False mi
    have "addNames ns (c + 1, lk2, if ins then rv @ [n] else rv) = (c1, lk1, rv1)" by simp
    from Cons.IH[OF this d2] s2 False show ?thesis by auto
  qed
qed

lemma map_insert_attributes:
  "map_insert sameAttribute a v lk = (lk1, ins) \<Longrightarrow> distinct (map (\<lambda>e. AttributeName (fst e)) lk)
   \<Longrightarrow> distinct (map (\<lambda>e. AttributeName (fst e)) lk1)
     \<and> set (map (\<lambda>e. AttributeName (fst e)) lk1)
         = insert (AttributeName a) (set (map (\<lambda>e. AttributeName (fst e)) lk))"
proof (cases "list_ex (\<lambda>e. sameAttribute (fst e) a) lk")
  case True
  assume mi: "map_insert sameAttribute a v lk = (lk1, ins)"
    and d: "distinct (map (\<lambda>e. AttributeName (fst e)) lk)"
  from True mi have e: "lk1 = lk" by (simp add: map_insert_def)
  from True obtain x where "x \<in> set lk" "AttributeName (fst x) = AttributeName a"
    by (auto simp: list_ex_iff sameAttribute_def)
  then have "AttributeName a \<in> (\<lambda>e. AttributeName (fst e)) ` set lk" by force
  with d e show ?thesis by (simp add: insert_absorb)
next
  case False
  assume mi: "map_insert sameAttribute a v lk = (lk1, ins)"
    and d: "distinct (map (\<lambda>e. AttributeName (fst e)) lk)"
  from False mi have e: "lk1 = lk @ [(a, v)]" by (simp add: map_insert_def)
  from False have "\<forall>x \<in> set lk. AttributeName (fst x) \<noteq> AttributeName a"
    by (simp add: list_ex_iff sameAttribute_def)
  then have "AttributeName a \<notin> (\<lambda>e. AttributeName (fst e)) ` set lk" by force
  with d e show ?thesis by simp
qed

lemma addAttributes_inv:
  "addAttributes as (lk, rv) = (lk1, rv1) \<Longrightarrow> distinct (map (\<lambda>e. AttributeName (fst e)) lk)
   \<Longrightarrow> distinct (map (\<lambda>e. AttributeName (fst e)) lk1)
     \<and> set (map (\<lambda>e. AttributeName (fst e)) lk1)
         = set (map (\<lambda>e. AttributeName (fst e)) lk) \<union> set (map AttributeName as)"
proof (induction as arbitrary: lk rv)
  case Nil
  then show ?case by simp
next
  case (Cons a as)
  obtain lk2 ins where mi: "map_insert sameAttribute a (length lk) lk = (lk2, ins)"
    by (cases "map_insert sameAttribute a (length lk) lk") blast
  from map_insert_attributes[OF mi Cons.prems(2)] have
    d2: "distinct (map (\<lambda>e. AttributeName (fst e)) lk2)"
    and s2: "set (map (\<lambda>e. AttributeName (fst e)) lk2)
         = insert (AttributeName a) (set (map (\<lambda>e. AttributeName (fst e)) lk))"
    by simp_all
  from Cons.prems(1) mi
  have "addAttributes as (lk2, if ins then rv @ [a] else rv) = (lk1, rv1)" by simp
  from Cons.IH[OF this d2] s2 show ?case by auto
qed

lemma card_grow:
  assumes "finite S" "finite N"
  shows "card (S \<union> N) - card S = card (N - S)"
proof -
  have "S \<union> N = S \<union> (N - S)" by blast
  moreover have "card (S \<union> (N - S)) = card S + card (N - S)"
    using assms by (intro card_Un_disjoint) auto
  ultimately show ?thesis by simp
qed

lemma distinct_length_card:
  "distinct (map f xs) \<Longrightarrow> length xs = card (set (map f xs))"
  using distinct_card[of "map f xs"] by simp

text \<open>
  The invariant of the scan: the keys of each lookup are distinct, and they are the
  names (respectively the names of the attributes) seen so far.
\<close>

definition scan_inv :: "scan \<Rightarrow> string set \<Rightarrow> string set \<Rightarrow> bool" where
  "scan_inv st N A =
     (distinct (map fst (allNamesLookup st)) \<and> set (map fst (allNamesLookup st)) = N
      \<and> distinct (map (\<lambda>e. AttributeName (fst e)) (allAttributesLookup st))
      \<and> set (map (\<lambda>e. AttributeName (fst e)) (allAttributesLookup st)) = A)"

lemma scanTree_step:
  assumes sc: "scanTree t st = Inr st1" and inv: "scan_inv st N A"
  shows "scan_inv st1 (N \<union> set (names_of t)) (A \<union> set (attribute_names_of t))"
    and "includeNamesPerTree st1
         = (includeNamesPerTree st
            \<or> (N \<noteq> {} \<and> length (names_of t) < 2 * card (set (names_of t) - N)))"
    and "includeAttributesPerTree st1
         = (includeAttributesPerTree st
            \<or> (A \<noteq> {} \<and> attribute_count t < 2 * card (set (attribute_names_of t) - A)))"
    and "attributes t \<noteq> []"
proof -
  obtain alk arv where aa: "addAttributes (attributes t) (allAttributesLookup st, allAttributesLookupReverse st) = (alk, arv)"
    by (cases "addAttributes (attributes t) (allAttributesLookup st, allAttributesLookupReverse st)") blast
  from sc aa obtain nn tn where nc: "nameColumns t = Inr (nn, tn)"
    by (auto simp: scanTree_def Let_def split: sum.splits)
  obtain c0 lk0 rv0 where a0: "addNames nn (0, allNamesLookup st, allNamesLookupReverse st) = (c0, lk0, rv0)"
    by (cases "addNames nn (0, allNamesLookup st, allNamesLookupReverse st)") auto
  obtain c1 lk1 rv1 where a1: "addNames tn (c0, lk0, rv0) = (c1, lk1, rv1)"
    by (cases "addNames tn (c0, lk0, rv0)") auto
  from inv have dn: "distinct (map fst (allNamesLookup st))" and sn: "set (map fst (allNamesLookup st)) = N"
    and da: "distinct (map (\<lambda>e. AttributeName (fst e)) (allAttributesLookup st))"
    and sa: "set (map (\<lambda>e. AttributeName (fst e)) (allAttributesLookup st)) = A"
    by (simp_all add: scan_inv_def)
  from addNames_inv[OF a0 dn] have d0: "distinct (map fst lk0)"
    and s0: "set (map fst lk0) = N \<union> set (filter (\<lambda>n. n \<noteq> []) nn)"
    and c0: "c0 = length (filter (\<lambda>n. n \<noteq> []) nn)"
    unfolding sn by simp_all
  from addNames_inv[OF a1 d0] have d1: "distinct (map fst lk1)"
    and s1': "set (map fst lk1) = (N \<union> set (filter (\<lambda>n. n \<noteq> []) nn)) \<union> set (filter (\<lambda>n. n \<noteq> []) tn)"
    and c1': "c1 = c0 + length (filter (\<lambda>n. n \<noteq> []) tn)"
    unfolding s0 by simp_all
  have no: "names_of t = filter (\<lambda>n. n \<noteq> []) nn @ filter (\<lambda>n. n \<noteq> []) tn"
    by (simp add: names_of_def nc)
  have s1: "set (map fst lk1) = N \<union> set (names_of t)"
    unfolding s1' no by (simp only: set_append Un_assoc)
  have c1: "c1 = length (names_of t)"
    unfolding c1' c0 no by simp
  from addAttributes_inv[OF aa da] have d2: "distinct (map (\<lambda>e. AttributeName (fst e)) alk)"
    and s2': "set (map (\<lambda>e. AttributeName (fst e)) alk) = A \<union> set (map AttributeName (attributes t))"
    unfolding sa by simp_all
  have s2: "set (map (\<lambda>e. AttributeName (fst e)) alk) = A \<union> set (attribute_names_of t)"
    unfolding s2' attribute_names_of_def by (rule refl)
  have st1: "st1 = \<lparr>allNamesLookup = lk1, allNamesLookupReverse = rv1,
                   allAttributesLookup = alk, allAttributesLookupReverse = arv,
                   includeNamesPerTree =
                     (if length (allNamesLookup st) \<noteq> 0
                         \<and> (length lk1 - length (allNamesLookup st)) * 2 > c1
                      then True else includeNamesPerTree st),
                   includeAttributesPerTree =
                     (if length (allAttributesLookup st) \<noteq> 0
                         \<and> (length alk - length (allAttributesLookup st)) * 2
                             > max 0 (max (length (nodeAttributes t)) (length (tipAttributes t)))
                      then True else includeAttributesPerTree st)\<rparr>"
    using sc by (simp add: scanTree_def aa nc a0 a1 Let_def)
  show "scan_inv st1 (N \<union> set (names_of t)) (A \<union> set (attribute_names_of t))"
    unfolding scan_inv_def st1 scan.simps using d1 s1 d2 s2 by blast
  have ln: "length (allNamesLookup st) = card N"
    using distinct_length_card[OF dn] sn by simp
  have ln1: "length lk1 = card (N \<union> set (names_of t))"
    using distinct_length_card[OF d1] s1 by simp
  have fN: "finite N" using sn[symmetric] by simp
  have gn: "length lk1 - length (allNamesLookup st) = card (set (names_of t) - N)"
    unfolding ln ln1 by (rule card_grow[OF fN]) simp
  have zn: "(length (allNamesLookup st) \<noteq> 0) = (N \<noteq> {})"
    using ln fN by simp
  show "includeNamesPerTree st1
         = (includeNamesPerTree st
            \<or> (N \<noteq> {} \<and> length (names_of t) < 2 * card (set (names_of t) - N)))"
    unfolding st1 by (simp only: scan.simps gn zn c1) (auto simp: mult.commute)
  have la: "length (allAttributesLookup st) = card A"
    using distinct_length_card[OF da] sa by simp
  have la1: "length alk = card (A \<union> set (attribute_names_of t))"
    using distinct_length_card[OF d2] s2 by simp
  have fA: "finite A" using sa[symmetric] by simp
  have ga: "length alk - length (allAttributesLookup st) = card (set (attribute_names_of t) - A)"
    unfolding la la1 by (rule card_grow[OF fA]) simp
  have za: "(length (allAttributesLookup st) \<noteq> 0) = (A \<noteq> {})"
    using la fA by simp
  show "includeAttributesPerTree st1
         = (includeAttributesPerTree st
            \<or> (A \<noteq> {} \<and> attribute_count t < 2 * card (set (attribute_names_of t) - A)))"
    unfolding st1 by (simp only: scan.simps ga za) (auto simp: mult.commute attribute_count_def)
  from nc show "attributes t \<noteq> []"
    by (auto simp: nameColumns_def lastIndex_def Let_def split: if_splits)
qed


text \<open>
  \<open>names_cond S t\<close>: some name was seen before the tree \<open>t\<close> (\<open>S\<close>, the names seen, is
  not empty) and \<open>t\<close> brings more new names than half of its name count; the same for
  the attributes.
\<close>

definition names_cond :: "string set \<Rightarrow> phylo \<Rightarrow> bool" where
  "names_cond S t = (S \<noteq> {} \<and> length (names_of t) < 2 * card (set (names_of t) - S))"

definition attributes_cond :: "string set \<Rightarrow> phylo \<Rightarrow> bool" where
  "attributes_cond S t =
     (S \<noteq> {} \<and> attribute_count t < 2 * card (set (attribute_names_of t) - S))"

lemma ex_less_Suc_shift: "(\<exists>i<Suc n. Q i) = (Q 0 \<or> (\<exists>i<n. Q (Suc i)))"
  by (auto simp: less_Suc_eq_0_disj)

lemma names_seen_Cons: "names_seen (t # ts) = set (names_of t) \<union> names_seen ts"
  by (simp add: names_seen_def)

lemma attribute_names_seen_Cons:
  "attribute_names_seen (t # ts) = set (attribute_names_of t) \<union> attribute_names_seen ts"
  by (simp add: attribute_names_seen_def)

lemma scanTrees_flags:
  "scanTrees ts st = Inr st' \<Longrightarrow> scan_inv st N A \<Longrightarrow>
     includeNamesPerTree st'
       = (includeNamesPerTree st \<or> (\<exists>i<length ts. names_cond (N \<union> names_seen (take i ts)) (ts ! i)))
   \<and> includeAttributesPerTree st'
       = (includeAttributesPerTree st
          \<or> (\<exists>i<length ts. attributes_cond (A \<union> attribute_names_seen (take i ts)) (ts ! i)))
   \<and> (ts \<noteq> [] \<longrightarrow> attributes (hd ts) \<noteq> [])"
proof (induction ts arbitrary: st N A)
  case Nil
  then show ?case by simp
next
  case (Cons t ts)
  from Cons.prems(1) obtain st1 where sc: "scanTree t st = Inr st1"
    by (auto split: sum.splits)
  let ?N1 = "N \<union> set (names_of t)"
  let ?A1 = "A \<union> set (attribute_names_of t)"
  from scanTree_step[OF sc Cons.prems(2)] have
    inv1: "scan_inv st1 ?N1 ?A1"
    and n1: "includeNamesPerTree st1 = (includeNamesPerTree st \<or> names_cond N t)"
    and a1: "includeAttributesPerTree st1 = (includeAttributesPerTree st \<or> attributes_cond A t)"
    and ne: "attributes t \<noteq> []"
    by (simp_all add: names_cond_def attributes_cond_def)
  have shiftN: "(\<exists>i<length (t # ts). names_cond (N \<union> names_seen (take i (t # ts))) ((t # ts) ! i))
      = (names_cond N t \<or> (\<exists>i<length ts. names_cond (?N1 \<union> names_seen (take i ts)) (ts ! i)))"
    by (simp add: ex_less_Suc_shift names_seen_Cons names_seen_def[of "[]"] Un_assoc)
  have shiftA: "(\<exists>i<length (t # ts). attributes_cond (A \<union> attribute_names_seen (take i (t # ts))) ((t # ts) ! i))
      = (attributes_cond A t \<or> (\<exists>i<length ts. attributes_cond (?A1 \<union> attribute_names_seen (take i ts)) (ts ! i)))"
    by (simp add: ex_less_Suc_shift attribute_names_seen_Cons attribute_names_seen_def[of "[]"] Un_assoc)
  show ?case
  proof (cases "includeNamesPerTree st1 \<and> includeAttributesPerTree st1")
    case True
    with Cons.prems(1) sc have e: "st' = st1" by simp
    from True n1 a1 ne show ?thesis
      unfolding shiftN shiftA e by auto
  next
    case False
    with Cons.prems(1) sc have r: "scanTrees ts st1 = Inr st'" by auto
    from Cons.IH[OF r inv1] n1 a1 ne show ?thesis
      unfolding shiftN shiftA by auto
  qed
qed

lemma scan_inv0: "scan_inv scan0 {} {}"
  by (simp add: scan_inv_def scan0_def)

lemma names_seen_first:
  "0 < i \<Longrightarrow> i \<le> length ts \<Longrightarrow> names_of (ts ! 0) \<noteq> [] \<Longrightarrow> names_seen (take i ts) \<noteq> {}"
  by (cases ts; cases i) (auto simp: names_seen_def)

lemma attribute_names_seen_first:
  "0 < i \<Longrightarrow> i \<le> length ts \<Longrightarrow> attributes (ts ! 0) \<noteq> [] \<Longrightarrow> attribute_names_seen (take i ts) \<noteq> {}"
  by (cases ts; cases i) (auto simp: attribute_names_seen_def attribute_names_of_def)

lemma headerByte_bits:
  "bit (headerByte n a) 0 = (\<not> n)" "bit (headerByte n a) 1 = (\<not> a)" "headerByte n a AND 0xfc = 0"
  by (cases n; cases a; simp add: headerByte_def)+

lemma ex_after_first:
  assumes "\<And>i. i < (n :: nat) \<Longrightarrow> P i = (0 < i)"
  shows "(\<exists>i<n. P i \<and> Q i) = (\<exists>i \<in> {0..<n}. 0 < i \<and> Q i)"
proof
  assume "\<exists>i<n. P i \<and> Q i"
  then obtain i where i: "i < n" "P i" "Q i" by blast
  with assms[of i] have "0 < i" by simp
  with i show "\<exists>i \<in> {0..<n}. 0 < i \<and> Q i" by auto
next
  assume "\<exists>i \<in> {0..<n}. 0 < i \<and> Q i"
  then obtain i where i: "i < n" "0 < i" "Q i" by auto
  with assms[of i] have "P i" by simp
  with i show "\<exists>i<n. P i \<and> Q i" by blast
qed

text \<open>
  C7 (amended). When the beginning of \<open>writeBinaryTrees\<close> succeeds on a collection, the
  scan of the trees has set the two flags before the first byte is written, and:
  \<^item> the names are written per tree exactly when some tree, scanned when at least one
    name had been seen in the trees before it, introduces more new names than half of
    its own name count;
  \<^item> when the first tree has at least one non-empty name, this is what the
    specification says: some tree after the first introduces more new names than half
    of its own name count;
  \<^item> the attributes are written per tree exactly when some tree after the first
    introduces more new attributes than half of its own attribute count;
  \<^item> the file begins with the magic and the header byte, whose bit 0 is set exactly
    when the names are shared, whose bit 1 is set exactly when the attributes are
    shared, and whose other bits are 0.
\<close>

theorem table_choice:
  assumes "writeBinaryTrees_header mp = Inr (st, out)"
  shows "includeNamesPerTree st
           = (\<exists>i \<in> {0..<length (trees mp)}. names_seen (take i (trees mp)) \<noteq> {}
                \<and> length (names_of (trees mp ! i))
                    < 2 * card (set (names_of (trees mp ! i)) - names_seen (take i (trees mp))))
       \<and> (trees mp \<noteq> [] \<and> names_of (trees mp ! 0) \<noteq> []
            \<longrightarrow> includeNamesPerTree st = spec_names_per_tree (trees mp))
       \<and> includeAttributesPerTree st = spec_attributes_per_tree (trees mp)
       \<and> out = [0x23, 0x54, 0x52, 0x45,
                 headerByte (includeNamesPerTree st) (includeAttributesPerTree st)]
       \<and> bit (out ! 4) 0 = (\<not> includeNamesPerTree st)
       \<and> bit (out ! 4) 1 = (\<not> includeAttributesPerTree st)
       \<and> (out ! 4) AND 0xfc = 0"
proof -
  let ?ts = "trees mp"
  from assms have sc: "scanTrees ?ts scan0 = Inr st"
    and out: "out = [0x23, 0x54, 0x52, 0x45,
                 headerByte (includeNamesPerTree st) (includeAttributesPerTree st)]"
    by (auto simp: writeBinaryTrees_header_def writeByte_def writeBytes_def split: sum.splits)
  from scanTrees_flags[OF sc scan_inv0] have
    n: "includeNamesPerTree st = (\<exists>i<length ?ts. names_cond (names_seen (take i ?ts)) (?ts ! i))"
    and a: "includeAttributesPerTree st
            = (\<exists>i<length ?ts. attributes_cond (attribute_names_seen (take i ?ts)) (?ts ! i))"
    and ne: "?ts \<noteq> [] \<longrightarrow> attributes (hd ?ts) \<noteq> []"
    by (simp_all add: scan0_def)
  have c1: "includeNamesPerTree st
           = (\<exists>i \<in> {0..<length ?ts}. names_seen (take i ?ts) \<noteq> {}
                \<and> length (names_of (?ts ! i))
                    < 2 * card (set (names_of (?ts ! i)) - names_seen (take i ?ts)))"
    unfolding n names_cond_def by auto
  have z: "names_seen (take 0 ?ts) = {}" "attribute_names_seen (take 0 ?ts) = {}"
    by (simp_all add: names_seen_def attribute_names_seen_def)
  have c2: "?ts \<noteq> [] \<and> names_of (?ts ! 0) \<noteq> [] \<longrightarrow> includeNamesPerTree st = spec_names_per_tree ?ts"
  proof
    assume h: "?ts \<noteq> [] \<and> names_of (?ts ! 0) \<noteq> []"
    have "\<And>i. i < length ?ts \<Longrightarrow> (names_seen (take i ?ts) \<noteq> {}) = (0 < i)"
    proof -
      fix i assume i: "i < length ?ts"
      show "(names_seen (take i ?ts) \<noteq> {}) = (0 < i)"
      proof (cases "i = 0")
        case True
        then show ?thesis using z by simp
      next
        case False
        with i h names_seen_first[of i ?ts] show ?thesis by simp
      qed
    qed
    then show "includeNamesPerTree st = spec_names_per_tree ?ts"
      unfolding n names_cond_def spec_names_per_tree_def by (rule ex_after_first)
  qed
  have c3: "includeAttributesPerTree st = spec_attributes_per_tree ?ts"
  proof -
    have "\<And>i. i < length ?ts \<Longrightarrow> (attribute_names_seen (take i ?ts) \<noteq> {}) = (0 < i)"
    proof -
      fix i assume i: "i < length ?ts"
      then have "?ts \<noteq> []" by auto
      with ne have "attributes (?ts ! 0) \<noteq> []" by (simp add: hd_conv_nth)
      show "(attribute_names_seen (take i ?ts) \<noteq> {}) = (0 < i)"
      proof (cases "i = 0")
        case True
        then show ?thesis using z by simp
      next
        case False
        with i \<open>attributes (?ts ! 0) \<noteq> []\<close> attribute_names_seen_first[of i ?ts] show ?thesis by simp
      qed
    qed
    then show ?thesis
      unfolding a attributes_cond_def spec_attributes_per_tree_def by (rule ex_after_first)
  qed
  have o4: "out ! 4 = headerByte (includeNamesPerTree st) (includeAttributesPerTree st)"
    unfolding out by simp
  show ?thesis
    unfolding o4 headerByte_bits using c1 c2 c3 out by blast
qed


text \<open>
  Two trees of two tips each, with the tips A, B and C, D: the second tree brings two
  new names out of two, the names are written per tree and the attributes are shared
  (header byte 2).
\<close>

theorem table_choice_witness:
  "writeBinaryTrees_header
     \<lparr>trees = [\<lparr>Nnode = 1, rootEdge = nan, edge = [(3, 1), (3, 2)], tipLabel = [''A'', ''B''], nodeLabel = [], edgeLength = [nan, nan], tipAttributes = [Strings [''A'', ''B'']], nodeAttributes = [Strings [[]]], attributes = [\<lparr>AttributeName = ''Name'', IsNumeric = False\<rparr>], hasEdgeLength = False, hasNodeLabel = False\<rparr>,
      \<lparr>Nnode = 1, rootEdge = nan, edge = [(3, 1), (3, 2)], tipLabel = [''C'', ''D''], nodeLabel = [], edgeLength = [nan, nan], tipAttributes = [Strings [''C'', ''D'']], nodeAttributes = [Strings [[]]], attributes = [\<lparr>AttributeName = ''Name'', IsNumeric = False\<rparr>], hasEdgeLength = False, hasNodeLabel = False\<rparr>], treeNames = [''tree1'', ''tree2'']\<rparr>
   = Inr (\<lparr>allNamesLookup = [(''A'', 0), (''B'', 1), (''C'', 2), (''D'', 3)], allNamesLookupReverse = [''A'', ''B'', ''C'', ''D''], allAttributesLookup = [(\<lparr>AttributeName = ''Name'', IsNumeric = False\<rparr>, 0)], allAttributesLookupReverse = [\<lparr>AttributeName = ''Name'', IsNumeric = False\<rparr>], includeNamesPerTree = True, includeAttributesPerTree = False\<rparr>, [0x23, 0x54, 0x52, 0x45, 0x02])
   \<and> spec_names_per_tree (trees
     \<lparr>trees = [\<lparr>Nnode = 1, rootEdge = nan, edge = [(3, 1), (3, 2)], tipLabel = [''A'', ''B''], nodeLabel = [], edgeLength = [nan, nan], tipAttributes = [Strings [''A'', ''B'']], nodeAttributes = [Strings [[]]], attributes = [\<lparr>AttributeName = ''Name'', IsNumeric = False\<rparr>], hasEdgeLength = False, hasNodeLabel = False\<rparr>,
      \<lparr>Nnode = 1, rootEdge = nan, edge = [(3, 1), (3, 2)], tipLabel = [''C'', ''D''], nodeLabel = [], edgeLength = [nan, nan], tipAttributes = [Strings [''C'', ''D'']], nodeAttributes = [Strings [[]]], attributes = [\<lparr>AttributeName = ''Name'', IsNumeric = False\<rparr>], hasEdgeLength = False, hasNodeLabel = False\<rparr>], treeNames = [''tree1'', ''tree2'']\<rparr>)
   \<and> \<not> spec_attributes_per_tree (trees
     \<lparr>trees = [\<lparr>Nnode = 1, rootEdge = nan, edge = [(3, 1), (3, 2)], tipLabel = [''A'', ''B''], nodeLabel = [], edgeLength = [nan, nan], tipAttributes = [Strings [''A'', ''B'']], nodeAttributes = [Strings [[]]], attributes = [\<lparr>AttributeName = ''Name'', IsNumeric = False\<rparr>], hasEdgeLength = False, hasNodeLabel = False\<rparr>,
      \<lparr>Nnode = 1, rootEdge = nan, edge = [(3, 1), (3, 2)], tipLabel = [''C'', ''D''], nodeLabel = [], edgeLength = [nan, nan], tipAttributes = [Strings [''C'', ''D'']], nodeAttributes = [Strings [[]]], attributes = [\<lparr>AttributeName = ''Name'', IsNumeric = False\<rparr>], hasEdgeLength = False, hasNodeLabel = False\<rparr>], treeNames = [''tree1'', ''tree2'']\<rparr>)"
proof -
  let ?mp = "\<lparr>trees = [\<lparr>Nnode = 1, rootEdge = nan, edge = [(3, 1), (3, 2)], tipLabel = [''A'', ''B''], nodeLabel = [], edgeLength = [nan, nan], tipAttributes = [Strings [''A'', ''B'']], nodeAttributes = [Strings [[]]], attributes = [\<lparr>AttributeName = ''Name'', IsNumeric = False\<rparr>], hasEdgeLength = False, hasNodeLabel = False\<rparr>,
      \<lparr>Nnode = 1, rootEdge = nan, edge = [(3, 1), (3, 2)], tipLabel = [''C'', ''D''], nodeLabel = [], edgeLength = [nan, nan], tipAttributes = [Strings [''C'', ''D'']], nodeAttributes = [Strings [[]]], attributes = [\<lparr>AttributeName = ''Name'', IsNumeric = False\<rparr>], hasEdgeLength = False, hasNodeLabel = False\<rparr>], treeNames = [''tree1'', ''tree2'']\<rparr>"
  let ?st = "\<lparr>allNamesLookup = [(''A'', 0), (''B'', 1), (''C'', 2), (''D'', 3)], allNamesLookupReverse = [''A'', ''B'', ''C'', ''D''], allAttributesLookup = [(\<lparr>AttributeName = ''Name'', IsNumeric = False\<rparr>, 0)], allAttributesLookupReverse = [\<lparr>AttributeName = ''Name'', IsNumeric = False\<rparr>], includeNamesPerTree = True, includeAttributesPerTree = False\<rparr>"
  have w: "writeBinaryTrees_header ?mp = Inr (?st, [0x23, 0x54, 0x52, 0x45, 0x02])"
    by code_simp
  have ne: "trees ?mp \<noteq> [] \<and> names_of (trees ?mp ! 0) \<noteq> []"
    by code_simp
  from table_choice[OF w] ne have "includeNamesPerTree ?st = spec_names_per_tree (trees ?mp)"
    and "includeAttributesPerTree ?st = spec_attributes_per_tree (trees ?mp)"
    by blast+
  then have "spec_names_per_tree (trees ?mp)" "\<not> spec_attributes_per_tree (trees ?mp)"
    by simp_all
  with w show ?thesis by blast
qed

text \<open>
  The first tree has no name at all (two tips with empty labels), the second has the
  tips C and D. The second tree is a tree after the first and both of its names are
  new, so the condition of the specification holds; but no name had been seen before
  it, \<open>prevNameCount\<close> is 0, and the writer keeps the shared table of names (header
  byte 3).
\<close>

theorem table_choice_counterexample:
  "spec_names_per_tree (trees
     \<lparr>trees = [\<lparr>Nnode = 1, rootEdge = nan, edge = [(3, 1), (3, 2)], tipLabel = [[], []], nodeLabel = [], edgeLength = [nan, nan], tipAttributes = [Strings [[], []]], nodeAttributes = [Strings [[]]], attributes = [\<lparr>AttributeName = ''Name'', IsNumeric = False\<rparr>], hasEdgeLength = False, hasNodeLabel = False\<rparr>,
      \<lparr>Nnode = 1, rootEdge = nan, edge = [(3, 1), (3, 2)], tipLabel = [''C'', ''D''], nodeLabel = [], edgeLength = [nan, nan], tipAttributes = [Strings [''C'', ''D'']], nodeAttributes = [Strings [[]]], attributes = [\<lparr>AttributeName = ''Name'', IsNumeric = False\<rparr>], hasEdgeLength = False, hasNodeLabel = False\<rparr>], treeNames = [''tree1'', ''tree2'']\<rparr>)
   \<and> writeBinaryTrees_header
     \<lparr>trees = [\<lparr>Nnode = 1, rootEdge = nan, edge = [(3, 1), (3, 2)], tipLabel = [[], []], nodeLabel = [], edgeLength = [nan, nan], tipAttributes = [Strings [[], []]], nodeAttributes = [Strings [[]]], attributes = [\<lparr>AttributeName = ''Name'', IsNumeric = False\<rparr>], hasEdgeLength = False, hasNodeLabel = False\<rparr>,
      \<lparr>Nnode = 1, rootEdge = nan, edge = [(3, 1), (3, 2)], tipLabel = [''C'', ''D''], nodeLabel = [], edgeLength = [nan, nan], tipAttributes = [Strings [''C'', ''D'']], nodeAttributes = [Strings [[]]], attributes = [\<lparr>AttributeName = ''Name'', IsNumeric = False\<rparr>], hasEdgeLength = False, hasNodeLabel = False\<rparr>], treeNames = [''tree1'', ''tree2'']\<rparr>
   = Inr (\<lparr>allNamesLookup = [(''C'', 0), (''D'', 1)], allNamesLookupReverse = [''C'', ''D''], allAttributesLookup = [(\<lparr>AttributeName = ''Name'', IsNumeric = False\<rparr>, 0)], allAttributesLookupReverse = [\<lparr>AttributeName = ''Name'', IsNumeric = False\<rparr>], includeNamesPerTree = False, includeAttributesPerTree = False\<rparr>, [0x23, 0x54, 0x52, 0x45, 0x03])"
proof -
  let ?mp = "\<lparr>trees = [\<lparr>Nnode = 1, rootEdge = nan, edge = [(3, 1), (3, 2)], tipLabel = [[], []], nodeLabel = [], edgeLength = [nan, nan], tipAttributes = [Strings [[], []]], nodeAttributes = [Strings [[]]], attributes = [\<lparr>AttributeName = ''Name'', IsNumeric = False\<rparr>], hasEdgeLength = False, hasNodeLabel = False\<rparr>,
      \<lparr>Nnode = 1, rootEdge = nan, edge = [(3, 1), (3, 2)], tipLabel = [''C'', ''D''], nodeLabel = [], edgeLength = [nan, nan], tipAttributes = [Strings [''C'', ''D'']], nodeAttributes = [Strings [[]]], attributes = [\<lparr>AttributeName = ''Name'', IsNumeric = False\<rparr>], hasEdgeLength = False, hasNodeLabel = False\<rparr>], treeNames = [''tree1'', ''tree2'']\<rparr>"
  have a: "names_of (trees ?mp ! 1) = [''C'', ''D'']" by code_simp
  have b: "names_seen (take 1 (trees ?mp)) = {}" by code_simp
  have "card (set [''C'', ''D''] - ({} :: string set)) = 2" by simp
  with a b have "length (names_of (trees ?mp ! 1))
           < 2 * card (set (names_of (trees ?mp ! 1)) - names_seen (take 1 (trees ?mp)))"
    by simp
  moreover have "(1 :: nat) \<in> {0..<length (trees ?mp)}" by simp
  ultimately have s: "spec_names_per_tree (trees ?mp)"
    unfolding spec_names_per_tree_def by (intro bexI[of _ 1]) simp_all
  have w: "writeBinaryTrees_header ?mp = Inr (\<lparr>allNamesLookup = [(''C'', 0), (''D'', 1)], allNamesLookupReverse = [''C'', ''D''], allAttributesLookup = [(\<lparr>AttributeName = ''Name'', IsNumeric = False\<rparr>, 0)], allAttributesLookupReverse = [\<lparr>AttributeName = ''Name'', IsNumeric = False\<rparr>], includeNamesPerTree = False, includeAttributesPerTree = False\<rparr>, [0x23, 0x54, 0x52, 0x45, 0x03])"
    by code_simp
  from s w show ?thesis by blast
qed

end
